theory Spec2Isabelle
  imports Complex_Main "HOL-Library.Multiset"
begin

section \<open>Numbers\<close>

text \<open>
  A JavaScript number is modelled as an exact rational or \<open>NaN\<close>: no rounding and no
  infinities. \<open>NaN\<close> absorbs every arithmetic operation and fails every comparison,
  as in the language.
\<close>

datatype number = NaN | Fin rat

instantiation number :: "{zero, plus, minus, times}"
begin

definition zero_number :: number where
  "zero_number = Fin 0"

fun plus_number :: "number \<Rightarrow> number \<Rightarrow> number" where
  "plus_number (Fin a) (Fin b) = Fin (a + b)"
| "plus_number _ _ = NaN"

fun minus_number :: "number \<Rightarrow> number \<Rightarrow> number" where
  "minus_number (Fin a) (Fin b) = Fin (a - b)"
| "minus_number _ _ = NaN"

fun times_number :: "number \<Rightarrow> number \<Rightarrow> number" where
  "times_number (Fin a) (Fin b) = Fin (a * b)"
| "times_number _ _ = NaN"

instance ..

end

text \<open>\<open>x / 2\<close>, \<open>a >= b\<close>, \<open>a <= b\<close>, \<open>Number.isNaN\<close> and \<open>Math.min\<close>.\<close>

fun half :: "number \<Rightarrow> number" where
  "half (Fin a) = Fin (a / 2)"
| "half NaN = NaN"

fun num_ge :: "number \<Rightarrow> number \<Rightarrow> bool" where
  "num_ge (Fin a) (Fin b) = (b \<le> a)"
| "num_ge _ _ = False"

fun num_le :: "number \<Rightarrow> number \<Rightarrow> bool" where
  "num_le (Fin a) (Fin b) = (a \<le> b)"
| "num_le _ _ = False"

fun isNaN :: "number \<Rightarrow> bool" where
  "isNaN NaN = True"
| "isNaN (Fin _) = False"

fun min2 :: "number \<Rightarrow> number \<Rightarrow> number" where
  "min2 (Fin a) (Fin b) = Fin (min a b)"
| "min2 _ _ = NaN"

text \<open>
  \<open>Math.min(...xs)\<close>. With no argument JavaScript answers \<open>+Infinity\<close>, which this
  number model does not have: the function is only ever applied to the heights of a
  traversal, which hold at least the height of the node the traversal starts at.
\<close>

fun Math_min :: "number list \<Rightarrow> number" where
  "Math_min [] = NaN"
| "Math_min [x] = min2 x x"
| "Math_min (x # y # ys) = min2 x (Math_min (y # ys))"

section \<open>Nodes and the store\<close>

text \<open>
  Nodes are mutable objects that refer to each other (\<open>parent\<close>, \<open>children\<close>), so they
  live in a store and are named by their address. \<open>new Node\<close> takes the next free
  address.
\<close>

type_synonym ref = nat

text \<open>The value of an annotation, \<open>RuleQResult\<close> of the reader.\<close>

datatype RuleQResult = Str string | Arr "RuleQResult list" | Null

record node =
  nid :: nat
  label :: "string option"
  branchLength :: "number option"
  height :: "number option"
  hybridID :: "number option"
  children :: "ref list"
  parent :: "ref option"
  annotation :: "string \<rightharpoonup> RuleQResult"

record heap =
  cells :: "ref \<Rightarrow> node"
  next_ref :: ref

definition blank_node :: "nat \<Rightarrow> node" where
  "blank_node i = \<lparr>nid = i, label = None, branchLength = None, height = None,
     hybridID = None, children = [], parent = None, annotation = Map.empty\<rparr>"

definition empty_heap :: heap where
  "empty_heap = \<lparr>cells = (\<lambda>_. blank_node 0), next_ref = 0\<rparr>"

definition upd :: "ref \<Rightarrow> (node \<Rightarrow> node) \<Rightarrow> heap \<Rightarrow> heap" where
  "upd r f h = h\<lparr>cells := (cells h)(r := f (cells h r))\<rparr>"

text \<open>
  Modelled from the spec: the class \<open>Node\<close> (its file is not among the sources). A new
  node has the given id and nothing else; \<open>addChild\<close> appends to the children and sets
  the parent reference; \<open>removeChild\<close> clears the child's parent reference and deletes
  it from the children; \<open>isLeaf\<close> is "no children"; \<open>isHybrid\<close> is "hybridID defined".
\<close>

definition new_Node :: "nat \<Rightarrow> heap \<Rightarrow> ref \<times> heap" where
  "new_Node i h =
     (next_ref h, h\<lparr>cells := (cells h)(next_ref h := blank_node i), next_ref := Suc (next_ref h)\<rparr>)"

definition addChild :: "ref \<Rightarrow> ref \<Rightarrow> heap \<Rightarrow> heap" where
  "addChild p c h =
     upd c (\<lambda>n. n\<lparr>parent := Some p\<rparr>) (upd p (\<lambda>n. n\<lparr>children := children n @ [c]\<rparr>) h)"

definition removeChild :: "ref \<Rightarrow> ref \<Rightarrow> heap \<Rightarrow> heap" where
  "removeChild p c h =
     upd c (\<lambda>n. n\<lparr>parent := None\<rparr>) (upd p (\<lambda>n. n\<lparr>children := remove1 c (children n)\<rparr>) h)"

definition isLeaf :: "heap \<Rightarrow> ref \<Rightarrow> bool" where
  "isLeaf h r = (children (cells h r) = [])"

definition isHybrid :: "heap \<Rightarrow> ref \<Rightarrow> bool" where
  "isHybrid h r = (hybridID (cells h r) \<noteq> None)"

text \<open>
  Modelled from the spec: \<open>Node.applyPreOrder\<close>, the depth-first traversal, parent before
  children, left to right among siblings; the caller's function is applied to each
  node and its non-null results are collected in visit order. The function may change
  the store (it writes heights, it reorders children), so the children are read after
  it has been applied to their parent. The recursion follows child references, which
  nothing forces to be acyclic: the first argument bounds its depth, and \<open>None\<close> is a
  traversal that did not return within it.
\<close>

fun visit_all ::
  "(ref \<Rightarrow> heap \<Rightarrow> ('a list \<times> heap) option) \<Rightarrow> ref list \<Rightarrow> heap \<Rightarrow> ('a list \<times> heap) option" where
  "visit_all g [] h = Some ([], h)"
| "visit_all g (c # cs) h =
     (case g c h of
        None \<Rightarrow> None
      | Some (xs, h1) \<Rightarrow>
          (case visit_all g cs h1 of
             None \<Rightarrow> None
           | Some (ys, h2) \<Rightarrow> Some (xs @ ys, h2)))"

fun applyPreOrder ::
  "nat \<Rightarrow> (ref \<Rightarrow> heap \<Rightarrow> ('a option \<times> heap) option) \<Rightarrow> ref \<Rightarrow> heap \<Rightarrow> ('a list \<times> heap) option" where
  "applyPreOrder 0 f r h = None"
| "applyPreOrder (Suc n) f r h =
     (case f r h of
        None \<Rightarrow> None
      | Some (x, h1) \<Rightarrow>
          (case visit_all (applyPreOrder n f) (children (cells h1 r)) h1 of
             None \<Rightarrow> None
           | Some (ys, h2) \<Rightarrow> Some ((case x of None \<Rightarrow> [] | Some v \<Rightarrow> [v]) @ ys, h2)))"

section \<open>Errors\<close>

text \<open>
  What the reader and the tree throw. A \<open>ParseException\<close> carries its message, kept
  here by its parts; the tree throws plain strings.
\<close>

datatype kind =
  OPENP | CLOSEP | COLON | COMMA | SEMI | OPENA | CLOSEA | OPENV | CLOSEV | EQ | HASH | STRING

record excerpt =
  left :: string
  at_char :: string
  right :: string

datatype message =
    ErrorReadingCharacter char nat
  | ExpectedToken kind kind string nat excerpt
  | TerminatedEarly kind
  | MultipleRoots
  | ExpectedNumericalBranchLength string

datatype error = ParseException message | Thrown string

text \<open>
  A computation that may throw and may not return: \<open>None\<close> is one that did not return
  within its bound, \<open>Some (Inl e)\<close> one that threw \<open>e\<close>.
\<close>

definition and_then :: "(error + 'a) option \<Rightarrow> ('a \<Rightarrow> (error + 'b) option) \<Rightarrow> (error + 'b) option" where
  "and_then m f = (case m of None \<Rightarrow> None | Some (Inl e) \<Rightarrow> Some (Inl e) | Some (Inr x) \<Rightarrow> f x)"

abbreviation ok :: "'a \<Rightarrow> (error + 'a) option" where
  "ok x \<equiv> Some (Inr x)"

abbreviation throw :: "error \<Rightarrow> (error + 'a) option" where
  "throw e \<equiv> Some (Inl e)"

section \<open>Trees\<close>

text \<open>
  The class \<open>Tree\<close>: the root, the caches of the derived views that the functions below
  read (\<open>_nodeList\<close>, \<open>_leafList\<close>, \<open>recombEdgeMap\<close>) and the flag \<open>isTimeTree\<close>. The two
  index caches \<open>nodeIDMap\<close> and \<open>labelNodeMap\<close> are read by \<open>getNode\<close> and
  \<open>getNodeByLabel\<close> only and are left out with them.
\<close>

record tree =
  root_t :: ref
  nodeList_cache :: "ref list option"
  leafList_cache :: "ref list option"
  recombEdgeMap_cache :: "(number \<times> ref list) list option"
  isTimeTree :: bool

definition clearCaches :: "tree \<Rightarrow> tree" where
  "clearCaches t = t\<lparr>nodeList_cache := None, leafList_cache := None, recombEdgeMap_cache := None\<rparr>"

text \<open>The getter \<open>nodeList\<close>: the cached list, computed by a traversal when there is none.\<close>

definition nodeList :: "nat \<Rightarrow> heap \<Rightarrow> tree \<Rightarrow> (ref list \<times> tree) option" where
  "nodeList fuel h t =
     (case nodeList_cache t of
        Some l \<Rightarrow> Some (l, t)
      | None \<Rightarrow>
          (case applyPreOrder fuel (\<lambda>r h'. Some (Some r, h')) (root_t t) h of
             None \<Rightarrow> None
           | Some (l, _) \<Rightarrow> Some (l, t\<lparr>nodeList_cache := Some l\<rparr>)))"

text \<open>The getter \<open>leafList\<close>.\<close>

definition leafList :: "nat \<Rightarrow> heap \<Rightarrow> tree \<Rightarrow> (ref list \<times> tree) option" where
  "leafList fuel h t =
     (case leafList_cache t of
        Some l \<Rightarrow> Some (l, t)
      | None \<Rightarrow>
          (case applyPreOrder fuel (\<lambda>r h'. Some (if isLeaf h' r then Some r else None, h')) (root_t t) h of
             None \<Rightarrow> None
           | Some (l, _) \<Rightarrow> Some (l, t\<lparr>leafList_cache := Some l\<rparr>)))"

subsection \<open>computeNodeAges\<close>

text \<open>The function \<open>computeNodeAges\<close> hands to the traversal: it writes the node's height.\<close>

definition node_age :: "ref \<Rightarrow> heap \<Rightarrow> number" where
  "node_age r h =
     (case parent (cells h r) of
        None \<Rightarrow> Fin 0
      | Some p \<Rightarrow>
          (case (branchLength (cells h r), height (cells h p)) of
             (Some bl, Some ph) \<Rightarrow> ph - bl
           | _ \<Rightarrow> NaN))"

definition set_age :: "ref \<Rightarrow> heap \<Rightarrow> (number option \<times> heap) option" where
  "set_age r h = Some (Some (node_age r h), upd r (\<lambda>n. n\<lparr>height := Some (node_age r h)\<rparr>) h)"

text \<open>The last loop of \<open>computeNodeAges\<close>: every defined height is lowered by the minimum.\<close>

definition shift_age :: "number \<Rightarrow> ref \<Rightarrow> heap \<Rightarrow> heap" where
  "shift_age y r h =
     (case height (cells h r) of
        None \<Rightarrow> h
      | Some x \<Rightarrow> upd r (\<lambda>n. n\<lparr>height := Some (x - y)\<rparr>) h)"

definition computeNodeAges :: "nat \<Rightarrow> heap \<Rightarrow> tree \<Rightarrow> (heap \<times> tree) option" where
  "computeNodeAges fuel h t =
     (case applyPreOrder fuel set_age (root_t t) h of
        None \<Rightarrow> None
      | Some (heights, h1) \<Rightarrow>
          (let youngestHeight = Math_min heights;
               t1 = t\<lparr>isTimeTree := (\<not> isNaN youngestHeight \<and>
                      (length heights > 1 \<or> branchLength (cells h1 (root_t t)) \<noteq> None))\<rparr>
           in case nodeList fuel h1 t1 of
                None \<Rightarrow> None
              | Some (nl, t2) \<Rightarrow> Some (fold (shift_age youngestHeight) nl h1, t2)))"

text \<open>The constructor, and \<open>getSubtree\<close>, which is the constructor at another node.\<close>

definition new_Tree :: "nat \<Rightarrow> heap \<Rightarrow> ref \<Rightarrow> (heap \<times> tree) option" where
  "new_Tree fuel h r =
     computeNodeAges fuel h
       \<lparr>root_t = r, nodeList_cache = None, leafList_cache = None,
        recombEdgeMap_cache = None, isTimeTree = False\<rparr>"

definition getSubtree :: "nat \<Rightarrow> heap \<Rightarrow> ref \<Rightarrow> (heap \<times> tree) option" where
  "getSubtree fuel h r = new_Tree fuel h r"

subsection \<open>getMRCA\<close>

text \<open>
  One round of the ascent, the \<open>for\<close> loop over \<open>nodesToCheck\<close>: \<open>Inl\<close> is the node that
  the loop returns, \<open>Inr\<close> the visit counts and the next nodes when it runs to its end.
\<close>

fun mrca_round ::
  "heap \<Rightarrow> nat \<Rightarrow> ref list \<Rightarrow> (ref \<rightharpoonup> nat) \<Rightarrow> ref list \<Rightarrow> ref + ((ref \<rightharpoonup> nat) \<times> ref list)" where
  "mrca_round h leafCount [] visitCounts nextNodes = Inr (visitCounts, nextNodes)"
| "mrca_round h leafCount (n # ns) visitCounts nextNodes =
     (let count = (case visitCounts n of None \<Rightarrow> 0 | Some c \<Rightarrow> c) + 1
      in if count = leafCount then Inl n
         else mrca_round h leafCount ns (visitCounts(n \<mapsto> count))
                (case parent (cells h n) of
                   None \<Rightarrow> nextNodes
                 | Some p \<Rightarrow> nextNodes @ [p]))"

text \<open>
  The \<open>while\<close> loop. The first argument bounds the number of rounds; the outer \<open>None\<close>
  is a loop that did not end within it, the inner one is the result \<open>null\<close>.
\<close>

fun mrca_loop ::
  "nat \<Rightarrow> heap \<Rightarrow> nat \<Rightarrow> ref list \<Rightarrow> (ref \<rightharpoonup> nat) \<Rightarrow> ref option option" where
  "mrca_loop 0 h leafCount nodesToCheck visitCounts = None"
| "mrca_loop (Suc k) h leafCount nodesToCheck visitCounts =
     (if nodesToCheck = [] then Some None
      else (case mrca_round h leafCount nodesToCheck visitCounts [] of
              Inl n \<Rightarrow> Some (Some n)
            | Inr (visitCounts', nextNodes) \<Rightarrow> mrca_loop k h leafCount nextNodes visitCounts'))"

definition getMRCA :: "nat \<Rightarrow> heap \<Rightarrow> ref list \<Rightarrow> ref option option" where
  "getMRCA fuel h nodes =
     (let leafCount = length nodes
      in if leafCount = 0 then Some None
         else if leafCount = 1 then
           Some (Some (case parent (cells h (nodes ! 0)) of Some p \<Rightarrow> p | None \<Rightarrow> nodes ! 0))
         else mrca_loop fuel h leafCount nodes Map.empty)"

subsection \<open>Objects used as maps\<close>

text \<open>
  The objects that \<open>getRecombEdgeMap\<close> and \<open>reroot\<close> use as maps have hybrid ids as
  keys. Such an object is the list of its entries in the order in which \<open>for ... in\<close>
  enumerates them: the keys that are array indices first, in ascending order, then
  the others in the order in which they were added.
\<close>

type_synonym 'v obj = "(number \<times> 'v) list"

fun is_index :: "number \<Rightarrow> bool" where
  "is_index (Fin q) = (0 \<le> q \<and> q = of_int \<lfloor>q\<rfloor> \<and> q < 4294967295)"
| "is_index NaN = False"

fun goes_before :: "number \<Rightarrow> number \<Rightarrow> bool" where
  "goes_before (Fin a) (Fin b) = (is_index (Fin a) \<and> (\<not> is_index (Fin b) \<or> a < b))"
| "goes_before (Fin a) NaN = is_index (Fin a)"
| "goes_before NaN _ = False"

definition obj_get :: "'v obj \<Rightarrow> number \<Rightarrow> 'v option" where
  "obj_get m k = map_of m k"

definition obj_has :: "'v obj \<Rightarrow> number \<Rightarrow> bool" where
  "obj_has m k = (map_of m k \<noteq> None)"

fun obj_set :: "'v obj \<Rightarrow> number \<Rightarrow> 'v \<Rightarrow> 'v obj" where
  "obj_set [] k v = [(k, v)]"
| "obj_set ((k', v') # m) k v =
     (if k' = k then (k, v) # m
      else if goes_before k k' then (k, v) # (k', v') # m
      else (k', v') # obj_set m k v)"

subsection \<open>getRecombEdgeMap\<close>

text \<open>The first loop, over the hybrid nodes: sources and destinations by hybrid id.\<close>

definition file_hybrid :: "heap \<Rightarrow> ref \<Rightarrow> ref obj \<times> ref list obj \<Rightarrow> ref obj \<times> ref list obj" where
  "file_hybrid h node maps =
     (case maps of (srcHybridIDMap, destHybridIDMap) \<Rightarrow>
        (case hybridID (cells h node) of
           None \<Rightarrow> (srcHybridIDMap, destHybridIDMap)
         | Some k \<Rightarrow>
             if isLeaf h node then
               (case obj_get destHybridIDMap k of
                  Some ds \<Rightarrow> (srcHybridIDMap, obj_set destHybridIDMap k (ds @ [node]))
                | None \<Rightarrow> (srcHybridIDMap, obj_set destHybridIDMap k [node]))
             else (obj_set srcHybridIDMap k node, destHybridIDMap)))"

text \<open>The second loop, over the sources, which throws at a source without destinations.\<close>

fun join_sources :: "ref list obj \<Rightarrow> (number \<times> ref) list \<Rightarrow> ref list obj \<Rightarrow> error + ref list obj" where
  "join_sources destHybridIDMap [] m = Inr m"
| "join_sources destHybridIDMap ((k, src) # rest) m =
     (case obj_get destHybridIDMap k of
        Some ds \<Rightarrow> join_sources destHybridIDMap rest (obj_set m k ([src] @ ds))
      | None \<Rightarrow> Inl (Thrown ''Extended Newick error: hybrid nodes must come in groups of 2 or more.''))"

text \<open>The third loop, "leaf recombinations": the destinations whose id has no entry yet.\<close>

definition add_leaf_group :: "number \<times> ref list \<Rightarrow> ref list obj \<Rightarrow> ref list obj" where
  "add_leaf_group e m = (case e of (k, ds) \<Rightarrow> if \<not> obj_has m k then obj_set m k ds else m)"

text \<open>
  \<open>getRecombEdgeMap\<close>. (The source assigns the empty map to the cache before the
  second loop, so a throw leaves it there; a throw is modelled without a state.)
\<close>

definition getRecombEdgeMap :: "nat \<Rightarrow> heap \<Rightarrow> tree \<Rightarrow> (error + ref list obj \<times> tree) option" where
  "getRecombEdgeMap fuel h t =
     (case recombEdgeMap_cache t of
        Some m \<Rightarrow> ok (m, t)
      | None \<Rightarrow>
          (case applyPreOrder fuel (\<lambda>r h'. Some (if isHybrid h' r then Some r else None, h')) (root_t t) h of
             None \<Rightarrow> None
           | Some (hybridNodeList, _) \<Rightarrow>
               (case fold (file_hybrid h) hybridNodeList ([], []) of
                  (srcHybridIDMap, destHybridIDMap) \<Rightarrow>
                    (case join_sources destHybridIDMap srcHybridIDMap [] of
                       Inl e \<Rightarrow> throw e
                     | Inr m \<Rightarrow>
                         (let m' = fold add_leaf_group destHybridIDMap m
                          in ok (m', t\<lparr>recombEdgeMap_cache := Some m'\<rparr>))))))"

subsection \<open>getTipLabels and getTotalBranchLength\<close>

text \<open>\<open>id.toString()\<close>: the decimal digits of a natural number.\<close>

fun toString :: "nat \<Rightarrow> string" where
  "toString n =
     (if n < 10 then [char_of (48 + n)] else toString (n div 10) @ [char_of (48 + n mod 10)])"

definition tip_label :: "heap \<Rightarrow> ref \<Rightarrow> string" where
  "tip_label h e = (case label (cells h e) of Some l \<Rightarrow> l | None \<Rightarrow> toString (nid (cells h e)))"

text \<open>
  \<open>getTipLabels\<close>: with a node, the leaves of the tree constructed at that node (the
  constructor computes its ages, which changes the store); without, the tree's own.
\<close>

definition getTipLabels :: "nat \<Rightarrow> heap \<Rightarrow> tree \<Rightarrow> ref option \<Rightarrow> (string list \<times> heap \<times> tree) option" where
  "getTipLabels fuel h t node =
     (case node of
        Some r \<Rightarrow>
          (case getSubtree fuel h r of
             None \<Rightarrow> None
           | Some (h1, sub) \<Rightarrow>
               (case leafList fuel h1 sub of
                  None \<Rightarrow> None
                | Some (ls, _) \<Rightarrow> Some (map (tip_label h1) ls, h1, t)))
      | None \<Rightarrow>
          (case leafList fuel h t of
             None \<Rightarrow> None
           | Some (ls, t1) \<Rightarrow> Some (map (tip_label h) ls, h, t1)))"

definition add_length :: "heap \<Rightarrow> ref \<Rightarrow> number \<Rightarrow> number" where
  "add_length h node totalLength =
     (case branchLength (cells h node) of
        Some b \<Rightarrow> totalLength + b
      | None \<Rightarrow> totalLength)"

definition getTotalBranchLength :: "nat \<Rightarrow> heap \<Rightarrow> tree \<Rightarrow> (number \<times> tree) option" where
  "getTotalBranchLength fuel h t =
     (case nodeList fuel h t of
        None \<Rightarrow> None
      | Some (nl, t1) \<Rightarrow> Some (fold (add_length h) nl (Fin 0), t1))"

subsection \<open>ladderise\<close>

text \<open>
  The comparator of the sort counts the tips of the trees it constructs at the two
  children: \<open>tipCount\<close> is \<open>this.getSubtree(a).getTipLabels().length\<close>. Constructing a
  tree recomputes the heights below its root, a change of the store that the count
  leaves behind.
\<close>

definition tipCount :: "nat \<Rightarrow> ref \<Rightarrow> heap \<Rightarrow> (nat \<times> heap) option" where
  "tipCount fuel a h =
     (case getSubtree fuel h a of
        None \<Rightarrow> None
      | Some (h1, sub) \<Rightarrow>
          (case getTipLabels fuel h1 sub None of
             None \<Rightarrow> None
           | Some (labels, h2, _) \<Rightarrow> Some (length labels, h2)))"

fun tipCounts :: "nat \<Rightarrow> ref list \<Rightarrow> heap \<Rightarrow> (nat list \<times> heap) option" where
  "tipCounts fuel [] h = Some ([], h)"
| "tipCounts fuel (a # as) h =
     (case tipCount fuel a h of
        None \<Rightarrow> None
      | Some (k, h1) \<Rightarrow>
          (case tipCounts fuel as h1 of
             None \<Rightarrow> None
           | Some (ks, h2) \<Rightarrow> Some (k # ks, h2)))"

text \<open>
  The function \<open>ladderise\<close> hands to the traversal: \<open>node.children.sort(...)\<close>. The sort
  of the language is stable and the comparator orders by tip count, so the result is
  the stable sort by tip count. How often the sort calls the comparator is up to the
  engine: not at all with fewer than two children, and at least once on every child
  otherwise; the model counts the tips of each child once, from left to right (a
  second count of the same child would write the same heights again).
\<close>

definition sort_children :: "nat \<Rightarrow> ref \<Rightarrow> heap \<Rightarrow> (unit option \<times> heap) option" where
  "sort_children fuel node h =
     (let cs = children (cells h node)
      in if length cs < 2 then Some (Some (), h)
         else (case tipCounts fuel cs h of
                 None \<Rightarrow> None
               | Some (ks, h1) \<Rightarrow>
                   Some (Some (),
                     upd node (\<lambda>n. n\<lparr>children := map snd (sort_key fst (zip ks cs))\<rparr>) h1)))"

definition ladderise :: "nat \<Rightarrow> heap \<Rightarrow> tree \<Rightarrow> heap option" where
  "ladderise fuel h t =
     (case applyPreOrder fuel (sort_children fuel) (root_t t) h of
        None \<Rightarrow> None
      | Some (_, h1) \<Rightarrow> Some h1)"

subsection \<open>reroot\<close>

text \<open>\<open>reassignNodeIDs\<close>: the nodes are numbered in the order of \<open>nodeList\<close>.\<close>

definition reassignNodeIDs :: "nat \<Rightarrow> heap \<Rightarrow> tree \<Rightarrow> (heap \<times> tree) option" where
  "reassignNodeIDs fuel h t =
     (case nodeList fuel h t of
        None \<Rightarrow> None
      | Some (nl, t1) \<Rightarrow>
          Some (fold (\<lambda>(i, r). upd r (\<lambda>n. n\<lparr>nid := i\<rparr>)) (zip [0..<length nl] nl) h, t1))"

text \<open>
  The loop \<open>while (newHybridID in usedHybridIDs) newHybridID += 1\<close>, from a candidate
  on. Its first argument bounds the steps; the search is started with the number of
  used ids, which that many steps cannot all hit.
\<close>

fun newHybridID_from :: "nat \<Rightarrow> nat \<Rightarrow> number list \<Rightarrow> nat" where
  "newHybridID_from 0 k used = k"
| "newHybridID_from (Suc b) k used =
     (if Fin (of_nat k) \<in> set used then newHybridID_from b (Suc k) used else k)"

text \<open>
  The state of \<open>recurseReroot\<close>: the store and the two objects it shares between its
  calls, \<open>usedHybridIDs\<close> (its keys) and \<open>seenNodes\<close> (the node ids that are its keys).
\<close>

type_synonym rstate = "heap \<times> number list \<times> nat set"

text \<open>
  The parts of \<open>recurseReroot\<close> without a recursive call. At a node already seen: a
  new hybrid node under \<open>prevNode\<close>, with the node's hybrid id or a new one for both.
\<close>

definition close_cycle :: "ref \<Rightarrow> ref \<Rightarrow> number option \<Rightarrow> rstate \<Rightarrow> rstate" where
  "close_cycle node prevNode BL st =
     (case st of (h, usedHybridIDs, seenNodes) \<Rightarrow>
      case new_Node 0 h of (newHybrid, h1) \<Rightarrow>
        (case (if isHybrid h1 node
               then (upd newHybrid (\<lambda>x. x\<lparr>hybridID := hybridID (cells h1 node)\<rparr>) h1, usedHybridIDs)
               else (let newHybridID = Fin (of_nat (newHybridID_from (length usedHybridIDs) 0 usedHybridIDs))
                     in (upd newHybrid (\<lambda>x. x\<lparr>hybridID := Some newHybridID\<rparr>)
                           (upd node (\<lambda>x. x\<lparr>hybridID := Some newHybridID\<rparr>) h1),
                         newHybridID # usedHybridIDs))) of
           (h2, used') \<Rightarrow>
             (addChild prevNode newHybrid (upd newHybrid (\<lambda>x. x\<lparr>branchLength := BL\<rparr>) h2),
              used', seenNodes)))"

text \<open>
  At a node not yet seen: it moves from its parent to \<open>prevNode\<close> and takes \<open>BL\<close> as
  its branch length; the result is the store and the branch length it had.
\<close>

definition turn_edge :: "ref \<Rightarrow> ref \<Rightarrow> number option \<Rightarrow> heap \<Rightarrow> heap \<times> number option" where
  "turn_edge node prevNode BL h =
     (let nodeP = parent (cells h node);
          h1 = (case nodeP of None \<Rightarrow> h | Some p \<Rightarrow> removeChild p node h);
          h2 = addChild prevNode node h1;
          tmpBL = branchLength (cells h2 node)
      in (upd node (\<lambda>x. x\<lparr>branchLength := BL\<rparr>) h2, tmpBL))"

text \<open>
  After the recursive call, at a hybrid node: its destinations in the map of before
  the reroot, each with its parent, and the node no longer hybrid. Reading the map at
  an id it does not have is a \<open>TypeError\<close> of the language at \<open>.slice\<close>.
\<close>

definition dest_edges :: "ref list obj \<Rightarrow> ref \<Rightarrow> heap \<Rightarrow> error + (ref \<times> ref option) list \<times> heap" where
  "dest_edges cm node h =
     (case hybridID (cells h node) of
        None \<Rightarrow> Inl (Thrown ''Hybrid node does not have hybridID'')
      | Some k \<Rightarrow>
          (case obj_get cm k of
             None \<Rightarrow> Inl (Thrown ''TypeError'')
           | Some grp \<Rightarrow>
               (let destNodes = drop 1 grp;
                    destNodePs = map (\<lambda>d. parent (cells h d)) destNodes
                in Inr (zip destNodes destNodePs, upd node (\<lambda>x. x\<lparr>hybridID := None\<rparr>) h))))"

text \<open>
  \<open>recurseReroot\<close>, and the loop over \<open>destNodes\<close> in it as \<open>reroot_dests\<close>. The first
  argument bounds the recursion.
\<close>

fun recurseReroot ::
    "nat \<Rightarrow> ref list obj \<Rightarrow> ref option \<Rightarrow> ref \<Rightarrow> number option \<Rightarrow> rstate \<Rightarrow> (error + rstate) option"
  and reroot_dests ::
    "nat \<Rightarrow> ref list obj \<Rightarrow> ref \<Rightarrow> (ref \<times> ref option) list \<Rightarrow> rstate \<Rightarrow> (error + rstate) option" where
  "recurseReroot 0 cm nodeOpt prevNode BL st = None"
| "recurseReroot (Suc n) cm nodeOpt prevNode BL st =
     (case nodeOpt of
        None \<Rightarrow> ok st
      | Some node \<Rightarrow>
          if nid (cells (fst st) node) \<in> snd (snd st) then ok (close_cycle node prevNode BL st)
          else
            and_then (recurseReroot n cm (parent (cells (fst st) node)) node
                        (snd (turn_edge node prevNode BL (fst st)))
                        (fst (turn_edge node prevNode BL (fst st)), fst (snd st),
                         insert (nid (cells (fst st) node)) (snd (snd st))))
              (\<lambda>st4.
                 if isHybrid (fst st4) node then
                   (case dest_edges cm node (fst st4) of
                      Inl e \<Rightarrow> throw e
                    | Inr (ds, h5) \<Rightarrow> reroot_dests n cm node ds (h5, snd st4))
                 else ok st4))"
| "reroot_dests 0 cm node ds st = (if ds = [] then ok st else None)"
| "reroot_dests (Suc n) cm node ds st =
     (case ds of
        [] \<Rightarrow> ok st
      | (destNode, destNodeP) # ds' \<Rightarrow>
          and_then (recurseReroot n cm destNodeP node
                      (branchLength (cells (case destNodeP of None \<Rightarrow> fst st
                                            | Some p \<Rightarrow> removeChild p destNode (fst st)) destNode))
                      (case destNodeP of None \<Rightarrow> fst st | Some p \<Rightarrow> removeChild p destNode (fst st),
                       snd st))
            (\<lambda>st'. reroot_dests n cm node ds' st'))"

text \<open>The cut of the branch below \<open>edgeBaseNode\<close>: its new length, and the rest \<open>BL\<close>.\<close>

definition cut_branch :: "ref \<Rightarrow> number option \<Rightarrow> heap \<Rightarrow> heap \<times> number option" where
  "cut_branch edgeBaseNode prop h =
     (case branchLength (cells h edgeBaseNode) of
        None \<Rightarrow> (h, None)
      | Some totalBL \<Rightarrow>
          (case prop of
             Some p \<Rightarrow>
               if num_ge p (Fin 0) \<and> num_le p (Fin 1)
               then (upd edgeBaseNode (\<lambda>x. x\<lparr>branchLength := Some (totalBL * p)\<rparr>) h,
                     Some (totalBL - totalBL * p))
               else (upd edgeBaseNode (\<lambda>x. x\<lparr>branchLength := Some (half totalBL)\<rparr>) h,
                     Some (half totalBL))
           | None \<Rightarrow>
               (upd edgeBaseNode (\<lambda>x. x\<lparr>branchLength := Some (half totalBL)\<rparr>) h,
                Some (half totalBL))))"

text \<open>"Delete singleton node left by old root".\<close>

definition splice_old_root :: "ref \<Rightarrow> heap \<Rightarrow> error + heap" where
  "splice_old_root oldRoot h =
     (if length (children (cells h oldRoot)) = 1 \<and> \<not> isHybrid h oldRoot then
        (let child = children (cells h oldRoot) ! 0
         in case parent (cells h oldRoot) of
              None \<Rightarrow> Inl (Thrown ''root with single child?'')
            | Some p \<Rightarrow>
                (let h1 = addChild p child (removeChild oldRoot child (removeChild p oldRoot h))
                 in case (branchLength (cells h1 child), branchLength (cells h1 oldRoot)) of
                      (Some a, Some b) \<Rightarrow> Inr (upd child (\<lambda>x. x\<lparr>branchLength := Some (a + b)\<rparr>) h1)
                    | _ \<Rightarrow> Inl (Thrown ''branchLength === undefined'')))
      else Inr h)"

text \<open>
  The last loop of \<open>reroot\<close>, "ensure destNode leaf heights match those of
  corresponding srcNodes": over the groups of the map, and in a group over its
  destinations.
\<close>

fun match_dests :: "ref \<Rightarrow> ref list \<Rightarrow> heap \<Rightarrow> error + heap" where
  "match_dests srcNode [] h = Inr h"
| "match_dests srcNode (destNode # ds) h =
     (case branchLength (cells h destNode) of
        None \<Rightarrow> Inl (Thrown ''branchLength === undefined'')
      | Some b \<Rightarrow>
          (case (height (cells h destNode), height (cells h srcNode)) of
             (Some dh, Some sh) \<Rightarrow>
               match_dests srcNode ds (upd destNode (\<lambda>x. x\<lparr>branchLength := Some (b + (dh - sh))\<rparr>) h)
           | _ \<Rightarrow> Inl (Thrown ''height === undefined'')))"

fun match_groups :: "ref list obj \<Rightarrow> heap \<Rightarrow> error + heap" where
  "match_groups [] h = Inr h"
| "match_groups ((k, grp) # rest) h =
     (case grp of
        [] \<Rightarrow> match_groups rest h
      | srcNode # ds \<Rightarrow>
          (case match_dests srcNode ds h of
             Inl e \<Rightarrow> Inl e
           | Inr h1 \<Rightarrow> match_groups rest h1))"

definition reroot :: "nat \<Rightarrow> heap \<Rightarrow> tree \<Rightarrow> ref \<Rightarrow> number option \<Rightarrow> (error + heap \<times> tree) option" where
  "reroot fuel h t edgeBaseNode prop =
     and_then (getRecombEdgeMap fuel h (t\<lparr>recombEdgeMap_cache := None\<rparr>)) (\<lambda>(currentRecombEdgeMap, t1).
     let oldRoot = root_t t1 in
     case new_Node 0 h of (newRoot, h1) \<Rightarrow>
     let t2 = t1\<lparr>root_t := newRoot\<rparr> in
     case parent (cells h1 edgeBaseNode) of
       None \<Rightarrow> throw (Thrown ''edgeBaseNodeP === undefined'')
     | Some edgeBaseNodeP \<Rightarrow>
         (case cut_branch edgeBaseNode prop
                 (addChild newRoot edgeBaseNode (removeChild edgeBaseNodeP edgeBaseNode h1)) of
            (h2, BL) \<Rightarrow>
         and_then (recurseReroot fuel currentRecombEdgeMap (Some edgeBaseNodeP) newRoot BL
                     (h2, map fst currentRecombEdgeMap, {})) (\<lambda>(h3, _, _).
         case splice_old_root oldRoot h3 of
           Inl e \<Rightarrow> throw e
         | Inr h4 \<Rightarrow>
             (case computeNodeAges fuel h4 (clearCaches t2) of
                None \<Rightarrow> None
              | Some (h5, t3) \<Rightarrow>
                  (case reassignNodeIDs fuel h5 t3 of
                     None \<Rightarrow> None
                   | Some (h6, t4) \<Rightarrow>
                       and_then (getRecombEdgeMap fuel h6 t4) (\<lambda>(m, t5).
                         case match_groups m h6 of
                           Inl e \<Rightarrow> throw e
                         | Inr h7 \<Rightarrow> ok (h7, t5)))))))"

section \<open>The reader\<close>

subsection \<open>The lexer\<close>

text \<open>
  A string is the list of its code units, taken below 256. The regular expressions of
  the table \<open>tokens\<close> are all tried at the start of the rest of the input (the one for
  \<open>HASH\<close> has no anchor, but a match elsewhere is dropped by the test
  \<open>match.index === 0\<close>); each is a function from the rest of the input to the text it
  matches.
\<close>

type_synonym token = "kind \<times> string \<times> nat"

definition is_space :: "char \<Rightarrow> bool" where
  "is_space c = (c \<in> {CHR 0x09, CHR 0x0A, CHR 0x0B, CHR 0x0C, CHR 0x0D, CHR 0x20, CHR 0xA0})"

definition lit :: "string \<Rightarrow> string \<Rightarrow> string option" where
  "lit p s = (if p \<noteq> [] \<and> take (length p) s = p then Some p else None)"

text \<open>
  The quoted strings, \<open>^"(?:[^"]|"")+"\<close> and the same with single quotes. After the
  opening quote and one unit (a character other than the quote, or the quote twice),
  \<open>quoted_rest\<close> counts what the greedy repetition and the closing quote take: it
  prefers one more unit, and closes where it is when no longer match closes.
\<close>

fun quoted_rest :: "char \<Rightarrow> string \<Rightarrow> nat option" where
  "quoted_rest q [] = None"
| "quoted_rest q [c] = (if c = q then Some 1 else None)"
| "quoted_rest q (c # d # r) =
     (if c \<noteq> q then map_option Suc (quoted_rest q (d # r))
      else if d = q then (case quoted_rest q r of Some n \<Rightarrow> Some (n + 2) | None \<Rightarrow> Some 1)
      else Some 1)"

fun match_quoted :: "char \<Rightarrow> string \<Rightarrow> string option" where
  "match_quoted q (c # d # e # r) =
     (if c \<noteq> q then None
      else if d \<noteq> q then map_option (\<lambda>n. take (n + 2) (c # d # e # r)) (quoted_rest q (e # r))
      else if e = q then map_option (\<lambda>n. take (n + 3) (c # d # e # r)) (quoted_rest q r)
      else None)"
| "match_quoted q _ = None"

text \<open>\<open>^[^,():;[\]#]+(?:\([^)]*\))?\<close>, the string of the default mode.\<close>

definition match_name :: "string \<Rightarrow> string option" where
  "match_name s =
     (let run = takeWhile (\<lambda>c. c \<notin> set '',():;[]#'') s
      in if run = [] then None
         else (case drop (length run) s of
                 [] \<Rightarrow> Some run
               | c # r \<Rightarrow>
                   (let inner = takeWhile (\<lambda>x. x \<noteq> CHR '')'') r
                    in if c = CHR ''('' \<and> length inner < length r
                       then Some (run @ [c] @ inner @ '')'')
                       else Some run)))"

text \<open>\<open>^[^,[\]{}=]+\<close>, the string of the attribute mode.\<close>

definition match_attr :: "string \<Rightarrow> string option" where
  "match_attr s =
     (let run = takeWhile (\<lambda>c. c \<notin> set '',[]{}='') s
      in if run = [] then None else Some run)"

definition tokens :: "(kind \<times> (string \<Rightarrow> string option) \<times> bool \<times> nat option) list" where
  "tokens =
    [(OPENP, lit ''('', False, None),
     (CLOSEP, lit '')'', False, None),
     (COLON, lit '':'', False, None),
     (COMMA, lit '','', False, None),
     (SEMI, lit '';'', False, None),
     (OPENA, lit ''[&'', False, None),
     (CLOSEA, lit '']'', False, None),
     (OPENV, lit ''{'', False, None),
     (CLOSEV, lit ''}'', False, None),
     (EQ, lit ''='', False, None),
     (HASH, lit ''#'', False, None),
     (STRING, match_quoted (CHR 0x22), True, None),
     (STRING, match_quoted (CHR 0x27), True, None),
     (STRING, match_name, True, Some 0),
     (STRING, match_attr, True, Some 1)]"

text \<open>The loop over the table: the first rule of the current mode that matches.\<close>

fun first_match ::
  "(kind \<times> (string \<Rightarrow> string option) \<times> bool \<times> nat option) list \<Rightarrow> nat \<Rightarrow> string \<Rightarrow>
   (kind \<times> string \<times> bool) option" where
  "first_match [] lexMode s = None"
| "first_match ((k, re, isStr, m) # rules) lexMode s =
     (if m \<noteq> None \<and> m \<noteq> Some lexMode then first_match rules lexMode s
      else (case re s of
              Some v \<Rightarrow> Some (k, v, isStr)
            | None \<Rightarrow> first_match rules lexMode s))"

text \<open>
  What the lexer does to the text of a string token: \<open>replace(/^"(.*)"$/, '$1')\<close> and
  the same for single quotes (the dot matches no line terminator), then the first
  doubled single quote and the first doubled double quote are halved.
\<close>

definition strip_quotes :: "char \<Rightarrow> string \<Rightarrow> string" where
  "strip_quotes q v =
     (if 2 \<le> length v \<and> hd v = q \<and> last v = q \<and>
         (\<forall>c \<in> set (butlast (tl v)). c \<noteq> CHR 0x0A \<and> c \<noteq> CHR 0x0D)
      then butlast (tl v) else v)"

fun halve_first :: "char \<Rightarrow> string \<Rightarrow> string" where
  "halve_first q (c # d # r) = (if c = q \<and> d = q then q # r else c # halve_first q (d # r))"
| "halve_first q v = v"

definition unquote :: "string \<Rightarrow> string" where
  "unquote v =
     halve_first (CHR 0x22) (halve_first (CHR 0x27) (strip_quotes (CHR 0x27) (strip_quotes (CHR 0x22) v)))"

lemma quoted_nonempty: "match_quoted q s = Some v \<Longrightarrow> v \<noteq> []"
  by (cases "(q, s)" rule: match_quoted.cases) (auto split: if_splits)

lemma first_match_nonempty: "first_match tokens m s = Some (k, v, b) \<Longrightarrow> v \<noteq> []"
  by (auto simp: tokens_def lit_def match_name_def match_attr_def Let_def
      split: if_splits option.splits list.splits dest: quoted_nonempty)

function doLex_loop :: "string \<Rightarrow> nat \<Rightarrow> nat \<Rightarrow> token list \<Rightarrow> error + token list" where
  "doLex_loop newick idx lexMode tokenList =
     (if idx < length newick then
        (if is_space (newick ! idx) then doLex_loop newick (idx + 1) lexMode tokenList
         else (case first_match tokens lexMode (drop idx newick) of
                 None \<Rightarrow> Inl (ParseException (ErrorReadingCharacter (newick ! idx) idx))
               | Some (k, v, isStr) \<Rightarrow>
                   doLex_loop newick (idx + length v)
                     (case k of OPENA \<Rightarrow> 1 | CLOSEA \<Rightarrow> 0 | _ \<Rightarrow> lexMode)
                     (tokenList @ [(k, if isStr \<and> k = STRING then unquote v else v, idx)])))
      else Inr tokenList)"
  by pat_completeness auto
termination
proof (relation "measure (\<lambda>(newick, idx, lexMode, tokenList). length newick - idx)", goal_cases)
  case 1
  show ?case by simp
next
  case (2 newick idx lexMode tokenList)
  then show ?case by simp
next
  case (3 newick idx lexMode tokenList x k y v isStr)
  from first_match_nonempty[of lexMode "drop idx newick" k v isStr] 3 have "v \<noteq> []"
    by simp
  with 3(1) show ?case by (cases v) auto
qed

definition doLex :: "string \<Rightarrow> error + token list" where
  "doLex newick = doLex_loop newick 0 0 []"

subsection \<open>The parser\<close>

text \<open>
  \<open>doParse\<close> closes over the token list, the text, the cursor \<open>idx\<close> and the counter
  \<open>thisNodeID\<close>; the rules below take the first two as \<open>input\<close> and pass the other
  two, with the store, as \<open>pstate\<close>. The rules call each other recursively: their
  first argument bounds the depth of the calls. The language's conversion \<open>Number\<close>
  of a string is a parameter.
\<close>

record input =
  tokenList :: "token list"
  newick :: string

record pstate =
  idx :: nat
  thisNodeID :: nat
  store :: heap

definition slice :: "string \<Rightarrow> nat \<Rightarrow> nat \<Rightarrow> string" where
  "slice s a b = take (b - a) (drop a s)"

definition getContext :: "input \<Rightarrow> nat \<Rightarrow> nat \<Rightarrow> excerpt" where
  "getContext inp i flank =
     (let strIdx = snd (snd (tokenList inp ! i));
          startIdx = (if strIdx \<ge> flank then strIdx - flank else 0);
          stopIdx = (if length (newick inp) - strIdx \<ge> flank then strIdx + flank
                     else length (newick inp))
      in \<lparr>left = slice (newick inp) startIdx strIdx,
          at_char = slice (newick inp) strIdx (strIdx + 1),
          right = slice (newick inp) (strIdx + 1) stopIdx\<rparr>)"

definition acceptToken :: "input \<Rightarrow> kind \<Rightarrow> bool \<Rightarrow> pstate \<Rightarrow> (error + bool \<times> pstate) option" where
  "acceptToken inp token mandatory s =
     (if idx s < length (tokenList inp) \<and> fst (tokenList inp ! idx s) = token
      then ok (True, s\<lparr>idx := idx s + 1\<rparr>)
      else if mandatory then
        (if idx s < length (tokenList inp) then
           throw (ParseException (ExpectedToken token
             (fst (tokenList inp ! idx s)) (fst (snd (tokenList inp ! idx s)))
             (snd (snd (tokenList inp ! idx s))) (getContext inp (idx s) 15)))
         else throw (ParseException (TerminatedEarly token)))
      else ok (False, s))"

text \<open>\<open>tokenList[idx - 1][1]\<close>, the text of the token just accepted.\<close>

definition prev_text :: "input \<Rightarrow> pstate \<Rightarrow> string" where
  "prev_text inp s = fst (snd (tokenList inp ! (idx s - 1)))"

fun ruleQ :: "nat \<Rightarrow> input \<Rightarrow> pstate \<Rightarrow> (error + RuleQResult \<times> pstate) option"
  and ruleW :: "nat \<Rightarrow> input \<Rightarrow> pstate \<Rightarrow> (error + RuleQResult list \<times> pstate) option" where
  "ruleQ 0 inp s = None"
| "ruleQ (Suc n) inp s =
     and_then (acceptToken inp STRING False s) (\<lambda>(b, s1).
       if b then ok (Str (prev_text inp s1), s1)
       else and_then (acceptToken inp OPENV False s1) (\<lambda>(b, s2).
         if b then
           and_then (ruleQ n inp s2) (\<lambda>(v, s3).
           and_then (ruleW n inp s3) (\<lambda>(vs, s4).
           and_then (acceptToken inp CLOSEV True s4) (\<lambda>(_, s5).
           ok (Arr (v # vs), s5))))
         else ok (Null, s2)))"
| "ruleW 0 inp s = None"
| "ruleW (Suc n) inp s =
     and_then (acceptToken inp COMMA False s) (\<lambda>(b, s1).
       if b then
         and_then (ruleQ n inp s1) (\<lambda>(v, s2).
         and_then (ruleW n inp s2) (\<lambda>(vs, s3).
         ok (v # vs, s3)))
       else ok ([], s1))"

fun isString :: "RuleQResult \<Rightarrow> bool" where
  "isString (Str _) = True"
| "isString _ = False"

fun isStringOrStringArrayOrNull :: "RuleQResult \<Rightarrow> bool" where
  "isStringOrStringArrayOrNull (Str _) = True"
| "isStringOrStringArrayOrNull (Arr items) = list_all isString items"
| "isStringOrStringArrayOrNull Null = True"

definition ruleD :: "nat \<Rightarrow> input \<Rightarrow> ref \<Rightarrow> pstate \<Rightarrow> (error + pstate) option" where
  "ruleD n inp node s =
     and_then (acceptToken inp STRING True s) (\<lambda>(_, s1).
     let key = prev_text inp s1 in
     and_then (acceptToken inp EQ True s1) (\<lambda>(_, s2).
     and_then (ruleQ n inp s2) (\<lambda>(v, s3).
     ok (if isStringOrStringArrayOrNull v
         then s3\<lparr>store := upd node (\<lambda>nd. nd\<lparr>annotation := (annotation nd)(key \<mapsto> v)\<rparr>) (store s3)\<rparr>
         else s3))))"

fun ruleE :: "nat \<Rightarrow> input \<Rightarrow> ref \<Rightarrow> pstate \<Rightarrow> (error + pstate) option" where
  "ruleE 0 inp node s = None"
| "ruleE (Suc n) inp node s =
     and_then (acceptToken inp COMMA False s) (\<lambda>(b, s1).
       if b then and_then (ruleD n inp node s1) (\<lambda>s2. ruleE n inp node s2)
       else ok s1)"

definition ruleA :: "nat \<Rightarrow> input \<Rightarrow> ref \<Rightarrow> pstate \<Rightarrow> (error + pstate) option" where
  "ruleA n inp node s =
     and_then (acceptToken inp OPENA False s) (\<lambda>(b, s1).
       if b then
         and_then (ruleD n inp node s1) (\<lambda>s2.
         and_then (ruleE n inp node s2) (\<lambda>s3.
         and_then (acceptToken inp CLOSEA True s3) (\<lambda>(_, s4). ok s4)))
       else ok s1)"

fun ruleR :: "nat \<Rightarrow> input \<Rightarrow> pstate \<Rightarrow> (error + pstate) option" where
  "ruleR 0 inp s = None"
| "ruleR (Suc n) inp s =
     and_then (acceptToken inp COLON False s) (\<lambda>(b, s1).
       if b then and_then (acceptToken inp STRING False s1) (\<lambda>(_, s2). ruleR n inp s2)
       else ok s1)"

definition ruleB :: "(string \<Rightarrow> number) \<Rightarrow> nat \<Rightarrow> input \<Rightarrow> ref \<Rightarrow> pstate \<Rightarrow> (error + pstate) option" where
  "ruleB Number n inp node s =
     and_then (acceptToken inp COLON False s) (\<lambda>(b, s1).
       if b then
         and_then (acceptToken inp STRING True s1) (\<lambda>(_, s2).
         let len = Number (prev_text inp s2) in
         if \<not> isNaN len then
           and_then (ruleR n inp
               (s2\<lparr>store := upd node (\<lambda>nd. nd\<lparr>branchLength := Some len\<rparr>) (store s2)\<rparr>)) (\<lambda>s3.
           ruleA n inp node s3)
         else throw (ParseException (ExpectedNumericalBranchLength (prev_text inp s2))))
       else ok s1)"

definition ruleL :: "input \<Rightarrow> ref \<Rightarrow> pstate \<Rightarrow> (error + pstate) option" where
  "ruleL inp node s =
     and_then (acceptToken inp STRING False s) (\<lambda>(b, s1).
       ok (if b
           then s1\<lparr>store := upd node (\<lambda>nd. nd\<lparr>label := Some (prev_text inp s1)\<rparr>) (store s1)\<rparr>
           else s1))"

definition ruleH :: "(string \<Rightarrow> number) \<Rightarrow> input \<Rightarrow> ref \<Rightarrow> pstate \<Rightarrow> (error + pstate) option" where
  "ruleH Number inp node s =
     and_then (acceptToken inp HASH False s) (\<lambda>(b, s1).
       if b then
         and_then (acceptToken inp STRING True s1) (\<lambda>(_, s2).
         ok (s2\<lparr>store := upd node (\<lambda>nd. nd\<lparr>hybridID := Some (Number (prev_text inp s2))\<rparr>) (store s2)\<rparr>))
       else ok s1)"

fun ruleN :: "nat \<Rightarrow> (string \<Rightarrow> number) \<Rightarrow> input \<Rightarrow> ref option \<Rightarrow> pstate \<Rightarrow> (error + ref \<times> pstate) option"
  and ruleC :: "nat \<Rightarrow> (string \<Rightarrow> number) \<Rightarrow> input \<Rightarrow> ref \<Rightarrow> pstate \<Rightarrow> (error + pstate) option"
  and ruleM :: "nat \<Rightarrow> (string \<Rightarrow> number) \<Rightarrow> input \<Rightarrow> ref \<Rightarrow> pstate \<Rightarrow> (error + pstate) option" where
  "ruleN 0 Number inp par s = None"
| "ruleN (Suc n) Number inp par s =
     (let (node, h1) = new_Node (thisNodeID s) (store s);
          s1 = s\<lparr>thisNodeID := thisNodeID s + 1,
                 store := (case par of None \<Rightarrow> h1 | Some p \<Rightarrow> addChild p node h1)\<rparr>
      in and_then (ruleC n Number inp node s1) (\<lambda>s2.
         and_then (ruleL inp node s2) (\<lambda>s3.
         and_then (ruleH Number inp node s3) (\<lambda>s4.
         and_then (ruleA n inp node s4) (\<lambda>s5.
         and_then (ruleB Number n inp node s5) (\<lambda>s6.
         ok (node, s6)))))))"
| "ruleC 0 Number inp node s = None"
| "ruleC (Suc n) Number inp node s =
     and_then (acceptToken inp OPENP False s) (\<lambda>(b, s1).
       if b then
         and_then (ruleN n Number inp (Some node) s1) (\<lambda>(_, s2).
         and_then (ruleM n Number inp node s2) (\<lambda>s3.
         and_then (acceptToken inp CLOSEP True s3) (\<lambda>(_, s4). ok s4)))
       else ok s1)"
| "ruleM 0 Number inp node s = None"
| "ruleM (Suc n) Number inp node s =
     and_then (acceptToken inp COMMA False s) (\<lambda>(b, s1).
       if b then
         and_then (ruleN n Number inp (Some node) s1) (\<lambda>(_, s2). ruleM n Number inp node s2)
       else ok s1)"

definition ruleT :: "nat \<Rightarrow> (string \<Rightarrow> number) \<Rightarrow> input \<Rightarrow> pstate \<Rightarrow> (error + ref \<times> pstate) option" where
  "ruleT n Number inp s =
     and_then (ruleN n Number inp None s) (\<lambda>(node, s1).
     and_then (acceptToken inp SEMI False s1) (\<lambda>(semi, s2).
       if \<not> semi then
         and_then (acceptToken inp COMMA False s2) (\<lambda>(comma, s3).
           if comma then throw (ParseException MultipleRoots) else ok (node, s3))
       else ok (node, s2)))"

definition doParse :: "nat \<Rightarrow> (string \<Rightarrow> number) \<Rightarrow> token list \<Rightarrow> string \<Rightarrow> (error + ref \<times> heap) option" where
  "doParse n Number toks text =
     and_then (ruleT n Number \<lparr>tokenList = toks, newick = text\<rparr>
                 \<lparr>idx = 0, thisNodeID = 0, store = empty_heap\<rparr>) (\<lambda>(treeRoot, s).
     ok (treeRoot, store s))"

text \<open>
  \<open>readNewick\<close>: the tokens, the node graph, the tree (whose constructor computes the
  ages), and a root branch length of zero made undefined.
\<close>

definition readNewick :: "nat \<Rightarrow> (string \<Rightarrow> number) \<Rightarrow> string \<Rightarrow> (error + heap \<times> tree) option" where
  "readNewick n Number text =
     (case doLex text of
        Inl e \<Rightarrow> throw e
      | Inr toks \<Rightarrow>
          and_then (doParse n Number toks text) (\<lambda>(rootNode, h).
            (case new_Tree n h rootNode of
               None \<Rightarrow> None
             | Some (h1, t) \<Rightarrow>
                 ok (if branchLength (cells h1 (root_t t)) = Some (Fin 0)
                     then upd (root_t t) (\<lambda>nd. nd\<lparr>branchLength := None\<rparr>) h1
                     else h1, t))))"

text \<open>
  A conversion to instantiate the parameter \<open>Number\<close> with in closed examples: it
  agrees with the language's \<open>Number\<close> on the strings \<open>digits\<close> and \<open>digits.digits\<close> and
  is \<open>NaN\<close> elsewhere (the language reads more strings as numbers: signs, exponents,
  surrounding white space, the empty string).
\<close>

fun digits_value :: "string \<Rightarrow> nat \<Rightarrow> nat option" where
  "digits_value [] acc = Some acc"
| "digits_value (c # cs) acc =
     (if 48 \<le> (of_char c :: nat) \<and> (of_char c :: nat) \<le> 57
      then digits_value cs (10 * acc + (of_char c - 48))
      else None)"

definition Number_decimal :: "string \<Rightarrow> number" where
  "Number_decimal s =
     (let ip = takeWhile (\<lambda>c. c \<noteq> CHR ''.'') s; rest = drop (length ip) s
      in if ip = [] then NaN
         else (case (digits_value ip 0, rest) of
                 (Some i, []) \<Rightarrow> Fin (of_nat i)
               | (Some i, _ # fp) \<Rightarrow>
                   (case digits_value fp 0 of
                      Some f \<Rightarrow> if fp = [] then NaN else Fin (of_nat i + of_nat f / 10 ^ length fp)
                    | None \<Rightarrow> NaN)
               | _ \<Rightarrow> NaN))"

section \<open>Notions of the specification\<close>

text \<open>
  "Further colon-delimited tokens": from a position in the token list, the position
  after the longest run of colons, each with the string that may follow it.
\<close>

function skip_colons :: "token list \<Rightarrow> nat \<Rightarrow> nat" where
  "skip_colons toks i =
     (if i < length toks \<and> fst (toks ! i) = COLON then
        (if i + 1 < length toks \<and> fst (toks ! (i + 1)) = STRING then skip_colons toks (i + 2)
         else skip_colons toks (i + 1))
      else i)"
  by pat_completeness auto
termination
  by (relation "measure (\<lambda>(toks, i). length toks - i)") auto

text \<open>
  The tree that a store holds at a node: the node and, for each of its children in order, the tree held there. \<open>nodes_of\<close> lists its nodes in pre-order, \<open>depth_of\<close> is the number of nodes on its longest path.
\<close>

datatype rtree = RNode ref "rtree list"

fun rroot :: "rtree \<Rightarrow> ref" where
  "rroot (RNode r ts) = r"


fun nodes_of :: "rtree \<Rightarrow> ref list" where
  "nodes_of (RNode r ts) = r # concat (map nodes_of ts)"

fun depth_of :: "rtree \<Rightarrow> nat" where
  "depth_of (RNode r ts) = Suc (foldr max (map depth_of ts) 0)"

fun shape :: "heap \<Rightarrow> rtree \<Rightarrow> bool" where
  "shape h (RNode r ts) = (children (cells h r) = map rroot ts \<and> (\<forall>t \<in> set ts. shape h t))"

text \<open>
  The parent references agree with the children, and no node occurs twice: the store holds a tree, not just an unfolding of child references.
\<close>

fun parents_ok :: "heap \<Rightarrow> rtree \<Rightarrow> bool" where
  "parents_ok h (RNode r ts) =
     (\<forall>t \<in> set ts. parent (cells h (rroot t)) = Some r \<and> parents_ok h t)"

definition is_tree :: "heap \<Rightarrow> rtree \<Rightarrow> bool" where
  "is_tree h t = (shape h t \<and> parents_ok h t \<and> distinct (nodes_of t))"

text \<open>
  A traversal that applies \<open>val\<close> and then \<open>step\<close> at each node of a list in turn: what \<open>applyPreOrder\<close> does along the nodes of a tree when the steps leave the children alone.
\<close>

fun thread ::
  "(ref \<Rightarrow> heap \<Rightarrow> 'a option) \<Rightarrow> (ref \<Rightarrow> heap \<Rightarrow> heap) \<Rightarrow> ref list \<Rightarrow> heap \<Rightarrow> 'a list \<times> heap" where
  "thread val step [] h = ([], h)"
| "thread val step (r # rs) h =
     ((case val r h of None \<Rightarrow> [] | Some v \<Rightarrow> [v]) @ fst (thread val step rs (step r h)),
      snd (thread val step rs (step r h)))"

text \<open>
  The heights before the shift, in the words of the specification: the height given to the first node, and for every other node its parent's height less its branch length, \<open>NaN\<close> without one. \<open>heights_of\<close> reads the heights of a list of nodes.
\<close>

definition child_age :: "heap \<Rightarrow> number \<Rightarrow> ref \<Rightarrow> number" where
  "child_age h a c = (case branchLength (cells h c) of Some bl \<Rightarrow> a - bl | None \<Rightarrow> NaN)"

fun ages :: "heap \<Rightarrow> number \<Rightarrow> rtree \<Rightarrow> number list" where
  "ages h a (RNode r ts) = a # concat (map (\<lambda>t. ages h (child_age h a (rroot t)) t) ts)"

definition heights_of :: "heap \<Rightarrow> ref list \<Rightarrow> number option list" where
  "heights_of h rs = map (\<lambda>q. height (cells h q)) rs"

text \<open>
  Two stores that differ in heights only, and the two halves of \<open>set_age\<close>.
\<close>

definition only_heights :: "heap \<Rightarrow> heap \<Rightarrow> bool" where
  "only_heights h h' = (\<forall>q. cells h' q = (cells h q)\<lparr>height := height (cells h' q)\<rparr>)"

definition age_val :: "ref \<Rightarrow> heap \<Rightarrow> number option" where
  "age_val r h = Some (node_age r h)"

definition age_step :: "ref \<Rightarrow> heap \<Rightarrow> heap" where
  "age_step r h = upd r (\<lambda>n. n\<lparr>height := Some (node_age r h)\<rparr>) h"

text \<open>
  For closed examples: the store that the parser builds from a text (with \<open>Number_decimal\<close>), and a tree object as the constructor starts from.
\<close>

definition parsed_store :: "nat \<Rightarrow> string \<Rightarrow> heap" where
  "parsed_store n s =
     (case doLex s of
        Inr toks \<Rightarrow> (case doParse n Number_decimal toks s of Some (Inr (r, h)) \<Rightarrow> h | _ \<Rightarrow> empty_heap)
      | Inl e \<Rightarrow> empty_heap)"

definition fresh_tree :: "ref \<Rightarrow> tree" where
  "fresh_tree r = \<lparr>root_t = r, nodeList_cache = None, leafList_cache = None,
     recombEdgeMap_cache = None, isTimeTree = False\<rparr>"


text \<open>
  Ladderising in the words of the specification: at each node the children are
  stably sorted by the number of tips below them, then each child is ladderised.
  \<open>children_kept\<close>: no child list changed outside a set of nodes.
\<close>

fun tip_count :: "rtree \<Rightarrow> nat" where
  "tip_count (RNode r ts) = (if ts = [] then 1 else sum_list (map tip_count ts))"

fun ladder :: "rtree \<Rightarrow> rtree" where
  "ladder (RNode r ts) = RNode r (map ladder (sort_key tip_count ts))"

definition children_kept :: "ref set \<Rightarrow> heap \<Rightarrow> heap \<Rightarrow> bool" where
  "children_kept S h h' = (\<forall>q. q \<notin> S \<longrightarrow> children (cells h' q) = children (cells h q))"






section \<open>Properties\<close>

text \<open>
  C6. \<open>getMRCA\<close> of no node is \<open>null\<close>, and \<open>getMRCA\<close> of one node is its parent, or the
  node itself when it has none; neither enters the loop, whatever the bound on its
  rounds.
\<close>

theorem getMRCA_empty_and_single:
  "getMRCA fuel h [] = Some None \<and>
   getMRCA fuel h [x] =
     Some (Some (case parent (cells h x) of Some p \<Rightarrow> p | None \<Rightarrow> x))"
  by (simp add: getMRCA_def split: option.splits)


subsection \<open>The reader\<close>

declare skip_colons.simps [simp del]

lemma and_then_simps [simp]:
  "and_then None f = None"
  "and_then (throw e) f = throw e"
  "and_then (ok x) f = f x"
  by (simp_all add: and_then_def)

lemma and_then_ok:
  "and_then m f = ok y \<Longrightarrow> \<exists>x. m = ok x \<and> f x = ok y"
  by (auto simp: and_then_def split: option.splits sum.splits)

lemma acceptToken_ok:
  "acceptToken inp k m s = ok (b, s') \<Longrightarrow>
     store s' = store s \<and> thisNodeID s' = thisNodeID s \<and> idx s' = (if b then idx s + 1 else idx s)"
  by (auto simp: acceptToken_def split: if_splits)

lemma ruleQ_ruleW_store:
  "(ruleQ n inp s = ok (v, s') \<longrightarrow> store s' = store s) \<and>
   (ruleW n inp s = ok (vs, s'') \<longrightarrow> store s'' = store s)"
proof (induction n arbitrary: s v s' vs s'')
  case 0
  show ?case by simp
next
  case (Suc n)
  have q: "store s' = store s" if "ruleQ (Suc n) inp s = ok (v, s')"
    using that Suc
    by (fastforce dest!: and_then_ok acceptToken_ok split: if_splits prod.splits)
  have w: "store s'' = store s" if "ruleW (Suc n) inp s = ok (vs, s'')"
    using that Suc
    by (fastforce dest!: and_then_ok acceptToken_ok split: if_splits prod.splits)
  from q w show ?case by blast
qed

lemma ruleD_bl:
  "ruleD n inp node s = ok s' \<Longrightarrow> branchLength (cells (store s') r) = branchLength (cells (store s) r)"
  unfolding ruleD_def Let_def
  by (fastforce dest!: and_then_ok acceptToken_ok simp: upd_def ruleQ_ruleW_store
      dest: ruleQ_ruleW_store[THEN conjunct1, rule_format] split: if_splits prod.splits)

lemma ruleE_bl:
  "ruleE n inp node s = ok s' \<Longrightarrow> branchLength (cells (store s') r) = branchLength (cells (store s) r)"
proof (induction n arbitrary: s)
  case 0
  then show ?case by simp
next
  case (Suc n)
  then show ?case
    by (fastforce dest!: and_then_ok acceptToken_ok dest: ruleD_bl split: if_splits prod.splits)
qed

lemma ruleA_bl:
  assumes "ruleA n inp node s = ok s'"
  shows "branchLength (cells (store s') r) = branchLength (cells (store s) r)"
proof (cases "acceptToken inp OPENA False s")
  case None
  with assms show ?thesis by (simp add: ruleA_def)
next
  case (Some a)
  show ?thesis
  proof (cases a)
    case (Inl e)
    with Some assms show ?thesis by (simp add: ruleA_def)
  next
    case (Inr bs)
    obtain b s1 where bs: "bs = (b, s1)" by (cases bs)
    note acc = acceptToken_ok[OF Some[unfolded Inr bs]]
    show ?thesis
    proof (cases b)
      case False
      with assms Some Inr bs acc show ?thesis by (simp add: ruleA_def)
    next
      case True
      with assms Some Inr bs obtain s2 s3 x where
        d: "ruleD n inp node s1 = ok s2" and e: "ruleE n inp node s2 = ok s3"
        and c: "acceptToken inp CLOSEA True s3 = ok x" and x: "snd x = s'"
        by (auto simp: ruleA_def dest!: and_then_ok split: prod.splits)
      from c x have "store s' = store s3" by (cases x) (auto dest: acceptToken_ok)
      with ruleD_bl[OF d, of r] ruleE_bl[OF e, of r] acc show ?thesis by simp
    qed
  qed
qed

lemma doLex_loop_spaces:
  "\<forall>i. j \<le> i \<and> i < length str \<longrightarrow> is_space (str ! i) \<Longrightarrow> doLex_loop str j m toks = Inr toks"
proof (induction "length str - j" arbitrary: j)
  case 0
  then show ?case by (simp add: doLex_loop.simps[of str j])
next
  case (Suc k)
  then have "j < length str" by simp
  moreover have "is_space (str ! j)" using Suc.prems \<open>j < length str\<close> by simp
  moreover have "doLex_loop str (j + 1) m toks = Inr toks"
    using Suc by (intro Suc.hyps(1)) auto
  ultimately show ?case by (simp add: doLex_loop.simps[of str j])
qed

lemma doLex_spaces: "list_all is_space str \<Longrightarrow> doLex str = Inr []"
  unfolding doLex_def by (rule doLex_loop_spaces) (simp add: list_all_length)

lemma accept_empty [simp]:
  "acceptToken \<lparr>tokenList = [], newick = str\<rparr> k False s = ok (False, s)"
  by (simp add: acceptToken_def)

lemma doParse_empty:
  "doParse (Suc (Suc n)) Number [] str =
     ok (0, \<lparr>cells = (cells empty_heap)(0 := blank_node 0), next_ref = 1\<rparr>)"
  by (simp add: doParse_def ruleT_def ruleL_def ruleH_def ruleA_def ruleB_def new_Node_def
      empty_heap_def)

text \<open>
  C10. \<open>readNewick\<close> of the empty string, or of a string of white space only, does not
  throw: it returns a tree whose root has id 0 and no label, no children and no branch
  length (a depth of two calls is all the parser needs).
\<close>

theorem readNewick_blank:
  assumes "list_all is_space str" and "2 \<le> n"
  shows "\<exists>h t. readNewick n Number str = ok (h, t) \<and>
           nid (cells h (root_t t)) = 0 \<and> label (cells h (root_t t)) = None \<and>
           children (cells h (root_t t)) = [] \<and> branchLength (cells h (root_t t)) = None"
proof -
  from assms(2) obtain k where n: "n = Suc (Suc k)"
    by (metis add_2_eq_Suc le_Suc_ex)
  show ?thesis
    unfolding n readNewick_def
    by (simp add: doLex_spaces[OF assms(1)] doParse_empty new_Tree_def computeNodeAges_def
        set_age_def node_age_def upd_def blank_node_def nodeList_def shift_age_def)
qed

theorem readNewick_blank_witness:
  "list_all is_space ''  '' \<and> (2::nat) \<le> 2 \<and>
   (\<exists>h t. readNewick 2 Number_decimal ''  '' = ok (h, t) \<and>
           nid (cells h (root_t t)) = 0 \<and> label (cells h (root_t t)) = None \<and>
           children (cells h (root_t t)) = [] \<and> branchLength (cells h (root_t t)) = None)"
proof -
  have a: "list_all is_space ''  ''" by (simp add: is_space_def)
  show ?thesis using a readNewick_blank[OF a, of 2 Number_decimal] by simp
qed

text \<open>
  C7. When the tokens of the input are one \<open>Node\<close> production (rule N returns) and the
  next token is a comma, the parser throws the \<open>ParseException\<close> "Tree/network with
  multiple roots found.", and with it \<open>readNewick\<close>.
\<close>

theorem multiple_roots_rejected:
  assumes "doLex str = Inr toks"
    and "ruleN n Number \<lparr>tokenList = toks, newick = str\<rparr> None
           \<lparr>idx = 0, thisNodeID = 0, store = empty_heap\<rparr> = ok (node, s1)"
    and "idx s1 < length toks" and "fst (toks ! idx s1) = COMMA"
  shows "doParse n Number toks str = throw (ParseException MultipleRoots) \<and>
         readNewick n Number str = throw (ParseException MultipleRoots)"
  using assms by (simp add: readNewick_def doParse_def ruleT_def acceptToken_def)

theorem multiple_roots_rejected_witness:
  "doLex ''A,B;'' = Inr [(STRING, ''A'', 0), (COMMA, '','', 1), (STRING, ''B'', 2), (SEMI, '';'', 3)] \<and>
   (case ruleN 3 Number_decimal
           \<lparr>tokenList = [(STRING, ''A'', 0), (COMMA, '','', 1), (STRING, ''B'', 2), (SEMI, '';'', 3)],
            newick = ''A,B;''\<rparr> None \<lparr>idx = 0, thisNodeID = 0, store = empty_heap\<rparr> of
      Some (Inr (node, s1)) \<Rightarrow> idx s1 = 1
    | _ \<Rightarrow> False) \<and>
   readNewick 3 Number_decimal ''A,B;'' = throw (ParseException MultipleRoots)"
proof -
  let ?toks = "[(STRING, ''A'', 0), (COMMA, '','', 1), (STRING, ''B'', 2), (SEMI, '';'', 3)]"
  have a: "doLex ''A,B;'' = Inr ?toks"
    by code_simp
  have b: "(case ruleN 3 Number_decimal \<lparr>tokenList = ?toks, newick = ''A,B;''\<rparr> None
                   \<lparr>idx = 0, thisNodeID = 0, store = empty_heap\<rparr> of
              Some (Inr (node, s1)) \<Rightarrow> idx s1 = 1
            | _ \<Rightarrow> False)"
    by code_simp
  then obtain node s1 where
    c: "ruleN 3 Number_decimal \<lparr>tokenList = ?toks, newick = ''A,B;''\<rparr> None
          \<lparr>idx = 0, thisNodeID = 0, store = empty_heap\<rparr> = ok (node, s1)" and d: "idx s1 = 1"
    by (auto split: option.splits sum.splits)
  from multiple_roots_rejected[OF a c] d a b show ?thesis by simp
qed

lemma ruleR_skips:
  "length (tokenList inp) - idx s < n \<Longrightarrow>
   ruleR n inp s = ok (s\<lparr>idx := skip_colons (tokenList inp) (idx s)\<rparr>)"
proof (induction n arbitrary: s)
  case 0
  then show ?case by simp
next
  case (Suc n)
  show ?case
  proof (cases "idx s < length (tokenList inp) \<and> fst (tokenList inp ! idx s) = COLON")
    case False
    then show ?thesis
      by (auto simp: acceptToken_def skip_colons.simps[of _ "idx s"])
  next
    case colon: True
    show ?thesis
    proof (cases "idx s + 1 < length (tokenList inp) \<and> fst (tokenList inp ! (idx s + 1)) = STRING")
      case True
      have "ruleR n inp (s\<lparr>idx := idx s + 2\<rparr>) =
              ok (s\<lparr>idx := idx s + 2\<rparr>\<lparr>idx := skip_colons (tokenList inp) (idx (s\<lparr>idx := idx s + 2\<rparr>))\<rparr>)"
        using Suc.prems colon by (intro Suc.IH) auto
      with colon True show ?thesis
        by (simp add: acceptToken_def skip_colons.simps[of _ "idx s"])
    next
      case False
      have "ruleR n inp (s\<lparr>idx := idx s + 1\<rparr>) =
              ok (s\<lparr>idx := idx s + 1\<rparr>\<lparr>idx := skip_colons (tokenList inp) (idx (s\<lparr>idx := idx s + 1\<rparr>))\<rparr>)"
        using Suc.prems colon by (intro Suc.IH) auto
      with colon False show ?thesis
        by (auto simp add: acceptToken_def skip_colons.simps[of _ "idx s"])
    qed
  qed
qed

text \<open>
  C8. A branch-length block, a colon and the string token that must follow it: when
  \<open>Number\<close> of the token's text is \<open>NaN\<close>, rule B throws the \<open>ParseException\<close> "Expected
  numerical branch length"; otherwise the number becomes the node's branch length,
  the colon-delimited tokens that follow are skipped with nothing written to the store,
  and rule B goes on with the annotation block, which leaves the branch length as it is.
\<close>

theorem branch_length_block:
  assumes "idx s < length (tokenList inp)" and "fst (tokenList inp ! idx s) = COLON"
    and "idx s + 1 < length (tokenList inp)" and "tokenList inp ! (idx s + 1) = (STRING, str, pos)"
    and "length (tokenList inp) < n"
  shows "(isNaN (Number str) \<longrightarrow>
            ruleB Number n inp node s = throw (ParseException (ExpectedNumericalBranchLength str))) \<and>
         (\<not> isNaN (Number str) \<longrightarrow>
            ruleB Number n inp node s =
              ruleA n inp node
                (s\<lparr>idx := skip_colons (tokenList inp) (idx s + 2),
                   store := upd node (\<lambda>nd. nd\<lparr>branchLength := Some (Number str)\<rparr>) (store s)\<rparr>) \<and>
            (\<forall>s'. ruleB Number n inp node s = ok s' \<longrightarrow>
               branchLength (cells (store s') node) = Some (Number str)))"
proof -
  let ?s2 = "s\<lparr>idx := idx s + 2,
                store := upd node (\<lambda>nd. nd\<lparr>branchLength := Some (Number str)\<rparr>) (store s)\<rparr>"
  have nan: "ruleB Number n inp node s = throw (ParseException (ExpectedNumericalBranchLength str))"
    if "isNaN (Number str)"
    using that assms(1-4) by (simp add: ruleB_def acceptToken_def prev_text_def)
  have r: "ruleR n inp ?s2 =
             ok (s\<lparr>idx := skip_colons (tokenList inp) (idx s + 2),
                   store := upd node (\<lambda>nd. nd\<lparr>branchLength := Some (Number str)\<rparr>) (store s)\<rparr>)"
    using ruleR_skips[of inp ?s2 n] assms(5) by simp
  have eq: "ruleB Number n inp node s =
              ruleA n inp node
                (s\<lparr>idx := skip_colons (tokenList inp) (idx s + 2),
                   store := upd node (\<lambda>nd. nd\<lparr>branchLength := Some (Number str)\<rparr>) (store s)\<rparr>)"
    if "\<not> isNaN (Number str)"
    using that assms(1-4) r by (simp add: ruleB_def acceptToken_def prev_text_def)
  have bl: "branchLength (cells (store s') node) = Some (Number str)"
    if "\<not> isNaN (Number str)" and "ruleB Number n inp node s = ok s'" for s'
    using ruleA_bl[of n inp node _ s' node] that eq by (simp add: upd_def)
  from nan eq bl show ?thesis by blast
qed

theorem branch_length_block_witness:
  "(let inp = \<lparr>tokenList = [(STRING, ''A'', 0), (COLON, '':'', 1), (STRING, ''1'', 2),
                  (COLON, '':'', 3), (STRING, ''90'', 4), (SEMI, '';'', 6)], newick = ''A:1:90;''\<rparr>;
        s = \<lparr>idx = 1, thisNodeID = 1, store = snd (new_Node 0 empty_heap)\<rparr>
    in \<not> isNaN (Number_decimal ''1'') \<and>
       (case ruleB Number_decimal 7 inp 0 s of
          Some (Inr s') \<Rightarrow> branchLength (cells (store s') 0) = Some (Fin 1) \<and> idx s' = 5
        | _ \<Rightarrow> False)) \<and>
   (let inp = \<lparr>tokenList = [(STRING, ''A'', 0), (COLON, '':'', 1), (STRING, ''x'', 2), (SEMI, '';'', 3)],
                newick = ''A:x;''\<rparr>;
        s = \<lparr>idx = 1, thisNodeID = 1, store = snd (new_Node 0 empty_heap)\<rparr>
    in isNaN (Number_decimal ''x'') \<and>
       ruleB Number_decimal 5 inp 0 s = throw (ParseException (ExpectedNumericalBranchLength ''x'')))"
proof -
  let ?inp = "\<lparr>tokenList = [(STRING, ''A'', 0), (COLON, '':'', 1), (STRING, ''1'', 2),
                  (COLON, '':'', 3), (STRING, ''90'', 4), (SEMI, '';'', 6)], newick = ''A:1:90;''\<rparr>"
  let ?s = "\<lparr>idx = 1, thisNodeID = 1, store = snd (new_Node 0 empty_heap)\<rparr>"
  let ?inp2 = "\<lparr>tokenList = [(STRING, ''A'', 0), (COLON, '':'', 1), (STRING, ''x'', 2), (SEMI, '';'', 3)],
                newick = ''A:x;''\<rparr>"
  have n1: "\<not> isNaN (Number_decimal ''1'')" by code_simp
  have n2: "isNaN (Number_decimal ''x'')" by code_simp
  have sk: "skip_colons (tokenList ?inp) (idx ?s + 2) = 5" by code_simp
  have a: "ruleA 7 ?inp 0 (?s\<lparr>idx := 5,
             store := upd 0 (\<lambda>nd. nd\<lparr>branchLength := Some (Number_decimal ''1'')\<rparr>) (store ?s)\<rparr>) =
           ok (?s\<lparr>idx := 5,
             store := upd 0 (\<lambda>nd. nd\<lparr>branchLength := Some (Number_decimal ''1'')\<rparr>) (store ?s)\<rparr>)"
    by (simp add: ruleA_def acceptToken_def)
  have t1: "ruleB Number_decimal 7 ?inp 0 ?s =
          ok (?s\<lparr>idx := 5,
             store := upd 0 (\<lambda>nd. nd\<lparr>branchLength := Some (Number_decimal ''1'')\<rparr>) (store ?s)\<rparr>)"
    using branch_length_block[of ?s ?inp "''1''" 2 7 Number_decimal 0] n1 sk a by simp
  have t2: "ruleB Number_decimal 5 ?inp2 0 ?s = throw (ParseException (ExpectedNumericalBranchLength ''x''))"
    using branch_length_block[of ?s ?inp2 "''x''" 2 5 Number_decimal 0] n2 by simp
  have v: "Number_decimal ''1'' = Fin 1" by code_simp
  show ?thesis unfolding Let_def using n1 n2 t1 t2 v by (simp add: upd_def)
qed

subsection \<open>Traversals of a tree\<close>

lemma thread_append:
  "thread val step (xs @ ys) h =
     (fst (thread val step xs h) @ fst (thread val step ys (snd (thread val step xs h))),
      snd (thread val step ys (snd (thread val step xs h))))"
  by (induction xs arbitrary: h) auto

lemma thread_children:
  assumes "\<And>r h q. children (cells (step r h) q) = children (cells h q)"
  shows "children (cells (snd (thread val step rs h)) q) = children (cells h q)"
proof (induction rs arbitrary: h)
  case Nil
  show ?case by simp
next
  case (Cons r rs)
  have "children (cells (snd (thread val step rs (step r h))) q) = children (cells (step r h) q)"
    by (rule Cons.IH)
  then show ?case using assms by simp
qed

lemma shape_cong:
  "(\<And>q. children (cells h' q) = children (cells h q)) \<Longrightarrow> shape h' t = shape h t"
  by (induction t) auto

lemma depth_of_member: "t \<in> set ts \<Longrightarrow> depth_of t \<le> foldr max (map depth_of ts) 0"
  by (induction ts) auto

lemma visit_all_thread:
  assumes pres: "\<And>r h q. children (cells (step r h) q) = children (cells h q)"
    and each: "\<And>t h. t \<in> set ts \<Longrightarrow> shape h t \<Longrightarrow>
                 g (rroot t) h = Some (thread val step (nodes_of t) h)"
    and sh: "\<forall>t \<in> set ts. shape h t"
  shows "visit_all g (map rroot ts) h = Some (thread val step (concat (map nodes_of ts)) h)"
  using each sh
proof (induction ts arbitrary: h)
  case Nil
  show ?case by simp
next
  case (Cons t ts)
  let ?h1 = "snd (thread val step (nodes_of t) h)"
  have g: "g (rroot t) h = Some (thread val step (nodes_of t) h)"
    using Cons.prems by simp
  have "children (cells ?h1 q) = children (cells h q)" for q
    using thread_children[of step val "nodes_of t" h q, OF pres] by simp
  then have "\<forall>u \<in> set ts. shape ?h1 u"
    using Cons.prems(2) shape_cong[of ?h1 h] by simp
  then have "visit_all g (map rroot ts) ?h1 = Some (thread val step (concat (map nodes_of ts)) ?h1)"
    using Cons.prems(1) by (intro Cons.IH) auto
  then show ?case
    using g by (cases "thread val step (nodes_of t) h")
      (auto simp: thread_append split: prod.splits)
qed

lemma traverse:
  assumes pres: "\<And>r h q. children (cells (step r h) q) = children (cells h q)"
    and "shape h t" and "depth_of t \<le> n"
  shows "applyPreOrder n (\<lambda>r h. Some (val r h, step r h)) (rroot t) h =
           Some (thread val step (nodes_of t) h)"
  using assms(2,3)
proof (induction n arbitrary: t h)
  case 0
  then show ?case by (cases t) simp
next
  case (Suc n)
  obtain r ts where t: "t = RNode r ts" by (cases t)
  let ?f = "\<lambda>r h. Some (val r h, step r h)"
  have ch: "children (cells (step r h) r) = map rroot ts"
    using Suc.prems(1) t pres by simp
  have sh1: "\<forall>u \<in> set ts. shape (step r h) u"
    using Suc.prems(1) t shape_cong[of "step r h" h] pres by simp
  have dep: "\<forall>u \<in> set ts. depth_of u \<le> n"
    using Suc.prems(2) t depth_of_member[of _ ts] by fastforce
  have "visit_all (applyPreOrder n ?f) (map rroot ts) (step r h) =
          Some (thread val step (concat (map nodes_of ts)) (step r h))"
    using sh1 dep Suc.IH by (intro visit_all_thread[OF pres]) auto
  then show ?case
    using ch t by (simp split: prod.splits)
qed

subsection \<open>The ages\<close>

lemma set_age_eq: "set_age = (\<lambda>r h. Some (age_val r h, age_step r h))"
  by (intro ext) (simp add: set_age_def age_val_def age_step_def)

lemma only_heights_refl [simp]: "only_heights h h"
  by (simp add: only_heights_def)

lemma only_heights_trans: "only_heights h h1 \<Longrightarrow> only_heights h1 h2 \<Longrightarrow> only_heights h h2"
  unfolding only_heights_def
proof
  fix q
  assume a: "\<forall>q. cells h1 q = (cells h q)\<lparr>height := height (cells h1 q)\<rparr>"
    and b: "\<forall>q. cells h2 q = (cells h1 q)\<lparr>height := height (cells h2 q)\<rparr>"
  have "cells h2 q = (cells h1 q)\<lparr>height := height (cells h2 q)\<rparr>" using b by blast
  also have "cells h1 q = (cells h q)\<lparr>height := height (cells h1 q)\<rparr>" using a by blast
  finally show "cells h2 q = (cells h q)\<lparr>height := height (cells h2 q)\<rparr>" by simp
qed

lemma only_heights_fields:
  assumes "only_heights h h'"
  shows "children (cells h' q) = children (cells h q)"
    and "parent (cells h' q) = parent (cells h q)"
    and "branchLength (cells h' q) = branchLength (cells h q)"
    and "label (cells h' q) = label (cells h q)"
    and "nid (cells h' q) = nid (cells h q)"
    and "hybridID (cells h' q) = hybridID (cells h q)"
proof -
  have e: "cells h' q = (cells h q)\<lparr>height := height (cells h' q)\<rparr>"
    using assms by (simp add: only_heights_def)
  show "children (cells h' q) = children (cells h q)" by (subst e) simp
  show "parent (cells h' q) = parent (cells h q)" by (subst e) simp
  show "branchLength (cells h' q) = branchLength (cells h q)" by (subst e) simp
  show "label (cells h' q) = label (cells h q)" by (subst e) simp
  show "nid (cells h' q) = nid (cells h q)" by (subst e) simp
  show "hybridID (cells h' q) = hybridID (cells h q)" by (subst e) simp
qed

lemma age_step_only: "only_heights h (age_step r h)"
  by (simp add: only_heights_def age_step_def upd_def)

lemma age_step_other: "q \<noteq> r \<Longrightarrow> cells (age_step r h) q = cells h q"
  by (simp add: age_step_def upd_def)

lemma age_step_height: "height (cells (age_step r h) r) = Some (node_age r h)"
  by (simp add: age_step_def upd_def)

lemma age_step_children: "children (cells (age_step r h) q) = children (cells h q)"
  by (simp add: age_step_def upd_def)

lemma thread_age_only: "only_heights h (snd (thread age_val age_step rs h))"
proof (induction rs arbitrary: h)
  case Nil
  show ?case by simp
next
  case (Cons r rs)
  show ?case
    using only_heights_trans[OF age_step_only Cons.IH[of "age_step r h"]] by simp
qed

lemma thread_age_other:
  "q \<notin> set rs \<Longrightarrow> cells (snd (thread age_val age_step rs h)) q = cells h q"
  by (induction rs arbitrary: h) (auto simp: age_step_other)

lemma length_ages: "length (ages h a t) = length (nodes_of t)"
proof (induction t arbitrary: a)
  case (RNode r ts)
  have eq: "map (\<lambda>t. length (ages h (child_age h a (rroot t)) t)) ts = map (\<lambda>t. length (nodes_of t)) ts"
    using RNode by (intro map_cong) auto
  show ?case by (simp add: length_concat comp_def eq)
qed

lemma child_age_cong: "only_heights h0 h \<Longrightarrow> child_age h a c = child_age h0 a c"
  by (simp add: child_age_def only_heights_fields)

lemma node_age_child:
  assumes "parent (cells h c) = Some r" and "height (cells h r) = Some a"
  shows "node_age c h = child_age h a c"
  using assms by (simp add: node_age_def child_age_def split: option.splits)

text \<open>The pass over a forest whose roots are the children of an aged node.\<close>

lemma ages_forest:
  assumes each: "\<And>t h a. t \<in> set ts \<Longrightarrow> only_heights h0 h \<Longrightarrow> node_age (rroot t) h = a \<Longrightarrow>
        fst (thread age_val age_step (nodes_of t) h) = ages h0 a t \<and>
        map (\<lambda>q. height (cells (snd (thread age_val age_step (nodes_of t) h)) q)) (nodes_of t) =
          map Some (ages h0 a t)"
    and par: "\<forall>t \<in> set ts. parent (cells h0 (rroot t)) = Some r"
    and dist: "distinct (concat (map nodes_of ts))"
    and r: "r \<notin> set (concat (map nodes_of ts))"
    and oh: "only_heights h0 h"
    and hr: "height (cells h r) = Some a"
  shows "fst (thread age_val age_step (concat (map nodes_of ts)) h) =
           concat (map (\<lambda>t. ages h0 (child_age h0 a (rroot t)) t) ts) \<and>
         map (\<lambda>q. height (cells (snd (thread age_val age_step (concat (map nodes_of ts)) h)) q))
             (concat (map nodes_of ts)) =
           map Some (concat (map (\<lambda>t. ages h0 (child_age h0 a (rroot t)) t) ts))"
  using each par dist r oh hr
proof (induction ts arbitrary: h)
  case Nil
  show ?case by simp
next
  case (Cons t ts)
  let ?ns = "nodes_of t"
  let ?rest = "concat (map nodes_of ts)"
  let ?h1 = "snd (thread age_val age_step ?ns h)"
  let ?h2 = "snd (thread age_val age_step ?rest ?h1)"
  let ?a = "child_age h0 a (rroot t)"
  have pt: "parent (cells h (rroot t)) = Some r"
    using Cons.prems(2,5) by (simp add: only_heights_fields)
  have na: "node_age (rroot t) h = ?a"
    using node_age_child[OF pt Cons.prems(6)] child_age_cong[OF Cons.prems(5)] by simp
  have t1: "fst (thread age_val age_step ?ns h) = ages h0 ?a t"
    and t2: "map (\<lambda>q. height (cells ?h1 q)) ?ns = map Some (ages h0 ?a t)"
    using Cons.prems(1)[of t h ?a] Cons.prems(5) na by auto
  have oh1: "only_heights h0 ?h1"
    using only_heights_trans[OF Cons.prems(5) thread_age_only] .
  have "r \<notin> set ?ns" using Cons.prems(4) by simp
  then have hr1: "height (cells ?h1 r) = Some a"
    using Cons.prems(6) by (simp add: thread_age_other)
  have ih: "fst (thread age_val age_step ?rest ?h1) =
              concat (map (\<lambda>t. ages h0 (child_age h0 a (rroot t)) t) ts) \<and>
            map (\<lambda>q. height (cells ?h2 q)) ?rest =
              map Some (concat (map (\<lambda>t. ages h0 (child_age h0 a (rroot t)) t) ts))"
    using Cons.prems(1,2,3,4) oh1 hr1 by (intro Cons.IH) auto
  have disj: "\<forall>q \<in> set ?ns. q \<notin> set ?rest"
    using Cons.prems(3) by auto
  have keep: "map (\<lambda>q. height (cells ?h2 q)) ?ns = map (\<lambda>q. height (cells ?h1 q)) ?ns"
    using disj by (intro map_cong) (auto simp: thread_age_other)
  show ?case
    using t1 t2 ih keep by (simp add: thread_append)
qed

lemma ages_thread:
  assumes "shape h0 t" and "parents_ok h0 t" and "distinct (nodes_of t)"
    and "only_heights h0 h" and "node_age (rroot t) h = a"
  shows "fst (thread age_val age_step (nodes_of t) h) = ages h0 a t \<and>
         map (\<lambda>q. height (cells (snd (thread age_val age_step (nodes_of t) h)) q)) (nodes_of t) =
           map Some (ages h0 a t)"
  using assms
proof (induction t arbitrary: h a)
  case (RNode r ts)
  let ?rest = "concat (map nodes_of ts)"
  let ?h1 = "age_step r h"
  have oh1: "only_heights h0 ?h1"
    using only_heights_trans[OF RNode.prems(4) age_step_only] .
  have hr: "height (cells ?h1 r) = Some a"
    using RNode.prems(5) by (simp add: age_step_height)
  have each: "fst (thread age_val age_step (nodes_of t) h') = ages h0 a' t \<and>
        map (\<lambda>q. height (cells (snd (thread age_val age_step (nodes_of t) h')) q)) (nodes_of t) =
          map Some (ages h0 a' t)"
    if "t \<in> set ts" "only_heights h0 h'" "node_age (rroot t) h' = a'" for t h' a'
    using that RNode.prems(1,2,3) by (intro RNode.IH) (auto simp: distinct_concat_iff)
  have f: "fst (thread age_val age_step ?rest ?h1) =
           concat (map (\<lambda>t. ages h0 (child_age h0 a (rroot t)) t) ts) \<and>
         map (\<lambda>q. height (cells (snd (thread age_val age_step ?rest ?h1)) q)) ?rest =
           map Some (concat (map (\<lambda>t. ages h0 (child_age h0 a (rroot t)) t) ts))"
    using each RNode.prems(2,3) oh1 hr by (intro ages_forest[where r = r]) auto
  have "r \<notin> set ?rest" using RNode.prems(3) by simp
  then have "height (cells (snd (thread age_val age_step ?rest ?h1)) r) = Some a"
    using hr by (simp add: thread_age_other)
  moreover have "age_val r h = Some a"
    using RNode.prems(5) by (simp add: age_val_def)
  ultimately show ?case
    using f by simp
qed

lemma thread_pure: "thread val (\<lambda>r h. h) rs h = (List.map_filter (\<lambda>r. val r h) rs, h)"
  by (induction rs) (auto simp: List.map_filter_simps split: option.splits)

lemma traverse_pure:
  assumes "shape h t" and "depth_of t \<le> n"
  shows "applyPreOrder n (\<lambda>r h. Some (val r h, h)) (rroot t) h =
           Some (List.map_filter (\<lambda>r. val r h) (nodes_of t), h)"
  using traverse[of "\<lambda>r h. h" h t n val] assms by (simp add: thread_pure)

lemma map_filter_Some: "List.map_filter (\<lambda>r. Some (f r)) rs = map f rs"
  by (induction rs) (auto simp: List.map_filter_simps)

lemma nodeList_tree:
  assumes "shape h t" and "depth_of t \<le> n" and "root_t tr = rroot t"
    and "nodeList_cache tr = None \<or> nodeList_cache tr = Some (nodes_of t)"
  shows "nodeList n h tr = Some (nodes_of t, tr\<lparr>nodeList_cache := Some (nodes_of t)\<rparr>)"
proof (cases "nodeList_cache tr")
  case None
  then show ?thesis
    using traverse_pure[OF assms(1,2), of "\<lambda>r h. Some r"] assms(3)
    by (simp add: nodeList_def map_filter_Some)
next
  case (Some l)
  then have "tr\<lparr>nodeList_cache := Some (nodes_of t)\<rparr> = tr" using assms(4) by simp
  then show ?thesis using Some assms(4) by (simp add: nodeList_def)
qed

lemma shift_age_only: "only_heights h (shift_age y r h)"
  by (simp add: only_heights_def shift_age_def upd_def split: option.splits)

lemma shift_age_other: "q \<noteq> r \<Longrightarrow> cells (shift_age y r h) q = cells h q"
  by (simp add: shift_age_def upd_def split: option.splits)

lemma shift_age_height:
  "height (cells (shift_age y r h) r) = map_option (\<lambda>x. x - y) (height (cells h r))"
  by (simp add: shift_age_def upd_def split: option.splits)

lemma fold_shift_only: "only_heights h (fold (shift_age y) rs h)"
proof (induction rs arbitrary: h)
  case Nil
  show ?case by simp
next
  case (Cons r rs)
  show ?case
    using only_heights_trans[OF shift_age_only Cons.IH[of "shift_age y r h"]] by simp
qed

lemma fold_shift_other: "q \<notin> set rs \<Longrightarrow> cells (fold (shift_age y) rs h) q = cells h q"
  by (induction rs arbitrary: h) (auto simp: shift_age_other)

lemma fold_shift_heights:
  "distinct rs \<Longrightarrow>
   heights_of (fold (shift_age y) rs h) rs = map (map_option (\<lambda>x. x - y)) (heights_of h rs)"
proof (induction rs arbitrary: h)
  case Nil
  show ?case by (simp add: heights_of_def)
next
  case (Cons r rs)
  have a: "height (cells (fold (shift_age y) rs (shift_age y r h)) r) =
           map_option (\<lambda>x. x - y) (height (cells h r))"
    using Cons.prems by (simp add: fold_shift_other shift_age_height)
  have b: "heights_of (shift_age y r h) rs = heights_of h rs"
    unfolding heights_of_def using Cons.prems by (intro map_cong refl) (metis distinct.simps(2) shift_age_other)
  show ?case
    using Cons.IH[of "shift_age y r h"] Cons.prems a b by (simp add: heights_of_def)
qed

text \<open>What \<open>computeNodeAges\<close> returns on a tree.\<close>

lemma computeNodeAges_tree:
  assumes tr: "is_tree h t" and root: "root_t tr = rroot t" and dep: "depth_of t \<le> n"
    and cache: "nodeList_cache tr = None \<or> nodeList_cache tr = Some (nodes_of t)"
  defines "hs \<equiv> ages h (node_age (rroot t) h) t"
  shows "\<exists>h'. computeNodeAges n h tr =
           Some (h', tr\<lparr>isTimeTree := (\<not> isNaN (Math_min hs) \<and>
                          (1 < length (nodes_of t) \<or> branchLength (cells h (rroot t)) \<noteq> None)),
                        nodeList_cache := Some (nodes_of t)\<rparr>) \<and>
         only_heights h h' \<and>
         (\<forall>q. q \<notin> set (nodes_of t) \<longrightarrow> cells h' q = cells h q) \<and>
         heights_of h' (nodes_of t) = map (\<lambda>x. Some (x - Math_min hs)) hs"
proof -
  let ?h1 = "snd (thread age_val age_step (nodes_of t) h)"
  let ?h' = "fold (shift_age (Math_min hs)) (nodes_of t) ?h1"
  let ?t1 = "tr\<lparr>isTimeTree := (\<not> isNaN (Math_min hs) \<and>
                 (1 < length (nodes_of t) \<or> branchLength (cells h (rroot t)) \<noteq> None))\<rparr>"
  have sh: "shape h t" and po: "parents_ok h t" and di: "distinct (nodes_of t)"
    using tr by (simp_all add: is_tree_def)
  have pass: "applyPreOrder n set_age (rroot t) h = Some (thread age_val age_step (nodes_of t) h)"
    unfolding set_age_eq using sh dep by (intro traverse) (simp_all add: age_step_children)
  have at: "fst (thread age_val age_step (nodes_of t) h) = hs"
    and ht: "heights_of ?h1 (nodes_of t) = map Some hs"
    using ages_thread[OF sh po di only_heights_refl refl] by (simp_all add: hs_def heights_of_def)
  have oh1: "only_heights h ?h1" by (rule thread_age_only)
  have sh1: "shape ?h1 t"
    using sh shape_cong[of ?h1 h t] only_heights_fields(1)[OF oh1] by simp
  have nl: "nodeList n ?h1 ?t1 = Some (nodes_of t, ?t1\<lparr>nodeList_cache := Some (nodes_of t)\<rparr>)"
    using cache root by (intro nodeList_tree[OF sh1 dep]) auto
  have len: "length hs = length (nodes_of t)" by (simp add: hs_def length_ages)
  have res: "computeNodeAges n h tr = Some (?h', ?t1\<lparr>nodeList_cache := Some (nodes_of t)\<rparr>)"
    unfolding computeNodeAges_def root pass
    using at nl len root only_heights_fields(3)[OF oh1]
    by (cases "thread age_val age_step (nodes_of t) h") (simp add: Let_def)
  have oh: "only_heights h ?h'"
    using only_heights_trans[OF oh1 fold_shift_only] .
  have fr: "cells ?h' q = cells h q" if "q \<notin> set (nodes_of t)" for q
    using that by (simp add: fold_shift_other thread_age_other)
  have hh: "heights_of ?h' (nodes_of t) = map (\<lambda>x. Some (x - Math_min hs)) hs"
    using fold_shift_heights[OF di, of "Math_min hs" ?h1] ht by (simp add: comp_def)
  from res oh fr hh show ?thesis by blast
qed

subsection \<open>Evaluating closed examples\<close>

text \<open>
  The simplifier evaluates a closed example when it is kept from rewriting the
  continuations before they are applied; the bounds are numerals.
\<close>

lemma and_then_weak_cong: "m = m' \<Longrightarrow> and_then m f = and_then m' f"
  by simp

lemma fuel_numeral:
  "ruleN (numeral k) = ruleN (Suc (pred_numeral k))"
  "ruleC (numeral k) = ruleC (Suc (pred_numeral k))"
  "ruleM (numeral k) = ruleM (Suc (pred_numeral k))"
  "ruleQ (numeral k) = ruleQ (Suc (pred_numeral k))"
  "ruleW (numeral k) = ruleW (Suc (pred_numeral k))"
  "ruleE (numeral k) = ruleE (Suc (pred_numeral k))"
  "ruleR (numeral k) = ruleR (Suc (pred_numeral k))"
  "applyPreOrder (numeral k) = applyPreOrder (Suc (pred_numeral k))"
  "mrca_loop (numeral k) = mrca_loop (Suc (pred_numeral k))"
  "recurseReroot (numeral k) = recurseReroot (Suc (pred_numeral k))"
  "reroot_dests (numeral k) = reroot_dests (Suc (pred_numeral k))"
  by (simp_all add: numeral_eq_Suc)

lemmas parse_eval = doParse_def ruleT_def ruleL_def ruleH_def ruleA_def ruleB_def ruleD_def
  acceptToken_def new_Node_def addChild_def upd_def empty_heap_def prev_text_def blank_node_def
  fuel_numeral Let_def


lemma Number_decimal_1: "Number_decimal ''1'' = Fin 1"
  by code_simp

lemma lex_example:
  "doLex ''((A:1,B:1):1,C:1);'' =
     Inr [(OPENP, ''('', 0), (OPENP, ''('', 1), (STRING, ''A'', 2), (COLON, '':'', 3),
          (STRING, ''1'', 4), (COMMA, '','', 5), (STRING, ''B'', 6), (COLON, '':'', 7),
          (STRING, ''1'', 8), (CLOSEP, '')'', 9), (COLON, '':'', 10), (STRING, ''1'', 11),
          (COMMA, '','', 12), (STRING, ''C'', 13), (COLON, '':'', 14), (STRING, ''1'', 15),
          (CLOSEP, '')'', 16), (SEMI, '';'', 17)]"
  by code_simp

lemma example_cells:
  "cells (parsed_store 12 ''((A:1,B:1):1,C:1);'') 0 = blank_node 0\<lparr>children := [1, 4]\<rparr>"
  "cells (parsed_store 12 ''((A:1,B:1):1,C:1);'') (Suc 0) =
     blank_node 1\<lparr>branchLength := Some (Fin 1), children := [2, 3], parent := Some 0\<rparr>"
  "cells (parsed_store 12 ''((A:1,B:1):1,C:1);'') 2 =
     blank_node 2\<lparr>label := Some ''A'', branchLength := Some (Fin 1), parent := Some 1\<rparr>"
  "cells (parsed_store 12 ''((A:1,B:1):1,C:1);'') 3 =
     blank_node 3\<lparr>label := Some ''B'', branchLength := Some (Fin 1), parent := Some 1\<rparr>"
  "cells (parsed_store 12 ''((A:1,B:1):1,C:1);'') 4 =
     blank_node 4\<lparr>label := Some ''C'', branchLength := Some (Fin 1), parent := Some 0\<rparr>"
  unfolding parsed_store_def lex_example
  by (simp_all add: parse_eval Number_decimal_1 del: Suc_numeral
      cong: and_then_weak_cong prod.case_cong_weak let_weak_cong)

lemma example_is_tree:
  "is_tree (parsed_store 12 ''((A:1,B:1):1,C:1);'')
     (RNode 0 [RNode 1 [RNode 2 [], RNode 3 []], RNode 4 []])"
  by (simp add: is_tree_def example_cells blank_node_def)

lemma lex_leaf: "doLex ''A;'' = Inr [(STRING, ''A'', 0), (SEMI, '';'', 1)]"
  by code_simp

lemma leaf_cells: "cells (parsed_store 3 ''A;'') 0 = blank_node 0\<lparr>label := Some ''A''\<rparr>"
  unfolding parsed_store_def lex_leaf
  by (simp add: parse_eval del: Suc_numeral
      cong: and_then_weak_cong prod.case_cong_weak let_weak_cong)

subsection \<open>computeNodeAges\<close>

text \<open>
  C4. On a tree, \<open>computeNodeAges\<close> returns, and after it \<open>isTimeTree\<close> holds exactly when
  the minimum of the heights before the shift (\<open>ages\<close>: the root's own, then parent less
  branch length, \<open>NaN\<close> without one) is not \<open>NaN\<close>, and the tree has more than one node
  or its root has a branch length.
\<close>

theorem isTimeTree_iff:
  assumes "is_tree h t" and "root_t tr = rroot t" and "depth_of t \<le> n"
    and "nodeList_cache tr = None \<or> nodeList_cache tr = Some (nodes_of t)"
  shows "\<exists>h' tr'. computeNodeAges n h tr = Some (h', tr') \<and>
           (isTimeTree tr' \<longleftrightarrow>
              \<not> isNaN (Math_min (ages h (node_age (rroot t) h) t)) \<and>
              (1 < length (nodes_of t) \<or> branchLength (cells h (rroot t)) \<noteq> None))"
  using computeNodeAges_tree[OF assms] by auto

theorem isTimeTree_iff_witness:
  "is_tree (parsed_store 12 ''((A:1,B:1):1,C:1);'') (RNode 0 [RNode 1 [RNode 2 [], RNode 3 []], RNode 4 []]) \<and>
   (\<exists>h' tr'. computeNodeAges 3 (parsed_store 12 ''((A:1,B:1):1,C:1);'') (fresh_tree 0) = Some (h', tr') \<and>
      isTimeTree tr') \<and>
   is_tree (parsed_store 3 ''A;'') (RNode 0 []) \<and>
   (\<exists>h' tr'. computeNodeAges 3 (parsed_store 3 ''A;'') (fresh_tree 0) = Some (h', tr') \<and>
      \<not> isTimeTree tr')"
proof -
  let ?h = "parsed_store 12 ''((A:1,B:1):1,C:1);''"
  let ?t = "RNode 0 [RNode 1 [RNode 2 [], RNode 3 []], RNode 4 []]"
  note a = example_is_tree
  have b: "root_t (fresh_tree 0) = rroot ?t" by (simp add: fresh_tree_def)
  have c: "depth_of ?t \<le> 3" by simp
  have d: "nodeList_cache (fresh_tree 0) = None \<or> nodeList_cache (fresh_tree 0) = Some (nodes_of ?t)"
    by (simp add: fresh_tree_def)
  have e: "\<not> isNaN (Math_min (ages ?h (node_age (rroot ?t) ?h) ?t)) \<and>
              (1 < length (nodes_of ?t) \<or> branchLength (cells ?h (rroot ?t)) \<noteq> None)"
    by (simp add: node_age_def child_age_def example_cells blank_node_def)
  let ?h2 = "parsed_store 3 ''A;''"
  let ?t2 = "RNode 0 []"
  have a2: "is_tree ?h2 ?t2" by (simp add: is_tree_def leaf_cells blank_node_def)
  have b2: "root_t (fresh_tree 0) = rroot ?t2" by (simp add: fresh_tree_def)
  have c2: "depth_of ?t2 \<le> 3" by simp
  have d2: "nodeList_cache (fresh_tree 0) = None \<or> nodeList_cache (fresh_tree 0) = Some (nodes_of ?t2)"
    by (simp add: fresh_tree_def)
  have e2: "\<not> (\<not> isNaN (Math_min (ages ?h2 (node_age (rroot ?t2) ?h2) ?t2)) \<and>
              (1 < length (nodes_of ?t2) \<or> branchLength (cells ?h2 (rroot ?t2)) \<noteq> None))"
    by (simp add: node_age_def child_age_def leaf_cells blank_node_def)
  from isTimeTree_iff[OF a b c d] e isTimeTree_iff[OF a2 b2 c2 d2] e2 a a2
  show ?thesis by blast
qed








subsection \<open>getRecombEdgeMap\<close>

















subsection \<open>ladderise\<close>

lemma rroot_ladder [simp]: "rroot (ladder t) = rroot t"
  by (cases t) simp

lemma shape_only_heights: "only_heights h h' \<Longrightarrow> shape h' t = shape h t"
  by (rule shape_cong) (simp add: only_heights_fields)

lemma shape_frame:
  "(\<And>q. q \<in> set (nodes_of t) \<Longrightarrow> children (cells h' q) = children (cells h q)) \<Longrightarrow>
   shape h' t = shape h t"
proof (induction t)
  case (RNode r ts)
  have "shape h' u = shape h u" if "u \<in> set ts" for u
    using that RNode.prems by (intro RNode.IH) auto
  then show ?case using RNode.prems[of r] by auto
qed

text \<open>\<open>computeNodeAges\<close> on the unfolding of the child references, whatever the parents.\<close>

lemma computeNodeAges_shape:
  assumes sh: "shape h t" and root: "root_t tr = rroot t" and dep: "depth_of t \<le> n"
    and cache: "nodeList_cache tr = None"
  shows "\<exists>h' tr'. computeNodeAges n h tr = Some (h', tr') \<and> only_heights h h' \<and>
           root_t tr' = root_t tr \<and> leafList_cache tr' = leafList_cache tr"
proof -
  obtain hs h1 where th: "thread age_val age_step (nodes_of t) h = (hs, h1)"
    by (cases "thread age_val age_step (nodes_of t) h")
  have pass: "applyPreOrder n set_age (rroot t) h = Some (hs, h1)"
    unfolding set_age_eq using sh dep th traverse[of age_step h t n age_val]
    by (simp add: age_step_children)
  have oh1: "only_heights h h1" using thread_age_only[of h "nodes_of t"] th by simp
  have sh1: "shape h1 t" using sh shape_only_heights[OF oh1] by simp
  let ?t1 = "tr\<lparr>isTimeTree := (\<not> isNaN (Math_min hs) \<and>
                 (1 < length hs \<or> branchLength (cells h1 (rroot t)) \<noteq> None))\<rparr>"
  have nl: "nodeList n h1 ?t1 = Some (nodes_of t, ?t1\<lparr>nodeList_cache := Some (nodes_of t)\<rparr>)"
    using cache root by (intro nodeList_tree[OF sh1 dep]) auto
  have "computeNodeAges n h tr =
          Some (fold (shift_age (Math_min hs)) (nodes_of t) h1, ?t1\<lparr>nodeList_cache := Some (nodes_of t)\<rparr>)"
    unfolding computeNodeAges_def root pass using nl root by (simp add: Let_def)
  moreover have "only_heights h (fold (shift_age (Math_min hs)) (nodes_of t) h1)"
    using only_heights_trans[OF oh1 fold_shift_only] .
  ultimately show ?thesis by simp
qed

lemma leaves_count: "shape h t \<Longrightarrow> length (filter (isLeaf h) (nodes_of t)) = tip_count t"
proof (induction t)
  case (RNode r ts)
  have eq: "map (\<lambda>u. length (filter (isLeaf h) (nodes_of u))) ts = map tip_count ts"
    using RNode by (intro map_cong) auto
  have "length (filter (isLeaf h) (concat (map nodes_of ts))) = sum_list (map tip_count ts)"
    by (simp add: filter_concat length_concat comp_def eq)
  moreover have "isLeaf h r = (ts = [])" using RNode.prems by (simp add: isLeaf_def)
  ultimately show ?case by simp
qed

lemma leafList_tree:
  assumes "shape h t" and "depth_of t \<le> n" and "root_t tr = rroot t" and "leafList_cache tr = None"
  shows "leafList n h tr =
           Some (filter (isLeaf h) (nodes_of t), tr\<lparr>leafList_cache := Some (filter (isLeaf h) (nodes_of t))\<rparr>)"
proof -
  have "List.map_filter (\<lambda>r. if isLeaf h r then Some r else None) rs = filter (isLeaf h) rs" for rs
    by (induction rs) (auto simp: List.map_filter_simps)
  then show ?thesis
    using traverse_pure[OF assms(1,2), of "\<lambda>r h'. if isLeaf h' r then Some r else None"] assms(3,4)
    by (simp add: leafList_def)
qed

lemma tipCount_run:
  assumes "shape h u" and "depth_of u \<le> m"
  shows "\<exists>h1. tipCount m (rroot u) h = Some (tip_count u, h1) \<and> only_heights h h1"
proof -
  let ?tr = "\<lparr>root_t = rroot u, nodeList_cache = None, leafList_cache = None,
               recombEdgeMap_cache = None, isTimeTree = False\<rparr>"
  obtain h1 tr1 where c: "computeNodeAges m h ?tr = Some (h1, tr1)" and oh: "only_heights h h1"
    and r1: "root_t tr1 = rroot u" and l1: "leafList_cache tr1 = None"
    using computeNodeAges_shape[OF assms(1) _ assms(2), of ?tr] by auto
  have sh1: "shape h1 u" using assms(1) shape_only_heights[OF oh] by simp
  have "getTipLabels m h1 tr1 None =
          Some (map (tip_label h1) (filter (isLeaf h1) (nodes_of u)), h1,
                tr1\<lparr>leafList_cache := Some (filter (isLeaf h1) (nodes_of u))\<rparr>)"
    using leafList_tree[OF sh1 assms(2) r1 l1] by (simp add: getTipLabels_def)
  then have "tipCount m (rroot u) h = Some (length (filter (isLeaf h1) (nodes_of u)), h1)"
    using c by (simp add: tipCount_def getSubtree_def new_Tree_def)
  then show ?thesis using leaves_count[OF sh1] oh by simp
qed

lemma tipCounts_run:
  assumes "\<forall>u \<in> set us. shape h u \<and> depth_of u \<le> m"
  shows "\<exists>h1. tipCounts m (map rroot us) h = Some (map tip_count us, h1) \<and> only_heights h h1"
  using assms
proof (induction us arbitrary: h)
  case Nil
  show ?case by simp
next
  case (Cons u us)
  obtain h1 where a: "tipCount m (rroot u) h = Some (tip_count u, h1)" and oh1: "only_heights h h1"
    using tipCount_run[of h u m] Cons.prems by auto
  have "\<forall>v \<in> set us. shape h1 v \<and> depth_of v \<le> m"
    using Cons.prems shape_only_heights[OF oh1] by simp
  then obtain h2 where b: "tipCounts m (map rroot us) h1 = Some (map tip_count us, h2)"
    and oh2: "only_heights h1 h2"
    using Cons.IH by blast
  show ?case using a b only_heights_trans[OF oh1 oh2] by simp
qed

lemma insort_key_pairs:
  "insort_key fst (f x, g x) (map (\<lambda>x. (f x, g x)) ys) = map (\<lambda>x. (f x, g x)) (insort_key f x ys)"
  by (induction ys) auto

lemma sort_key_pairs:
  "sort_key fst (map (\<lambda>x. (f x, g x)) xs) = map (\<lambda>x. (f x, g x)) (sort_key f xs)"
  by (induction xs) (auto simp: insort_key_pairs)

lemma sorted_children:
  "map snd (sort_key fst (zip (map f xs) (map g xs))) = map g (sort_key f xs)"
proof -
  have "zip (map f xs) (map g xs) = map (\<lambda>x. (f x, g x)) xs"
    by (induction xs) auto
  then show ?thesis by (simp add: sort_key_pairs comp_def)
qed

lemma sort_children_run:
  assumes "children (cells h r) = map rroot ts" and "\<forall>u \<in> set ts. shape h u \<and> depth_of u \<le> m"
  shows "\<exists>h1. sort_children m r h = Some (Some (), h1) \<and>
           children (cells h1 r) = map rroot (sort_key tip_count ts) \<and>
           (\<forall>q. q \<noteq> r \<longrightarrow> children (cells h1 q) = children (cells h q))"
proof (cases "length ts < 2")
  case True
  then have "sort_key tip_count ts = ts"
    by (cases ts) (auto simp: less_Suc_eq numeral_2_eq_2)
  then show ?thesis using True assms(1) by (simp add: sort_children_def)
next
  case False
  obtain h1 where a: "tipCounts m (map rroot ts) h = Some (map tip_count ts, h1)"
    and oh: "only_heights h h1"
    using tipCounts_run[OF assms(2)] by blast
  let ?h2 = "upd r (\<lambda>n. n\<lparr>children := map rroot (sort_key tip_count ts)\<rparr>) h1"
  have "sort_children m r h = Some (Some (), ?h2)"
    using False assms(1) a by (simp add: sort_children_def sorted_children)
  moreover have "children (cells ?h2 r) = map rroot (sort_key tip_count ts)"
    by (simp add: upd_def)
  moreover have "children (cells ?h2 q) = children (cells h q)" if "q \<noteq> r" for q
    using that only_heights_fields(1)[OF oh] by (simp add: upd_def)
  ultimately show ?thesis by blast
qed

lemma sum_list_sort_key:
  fixes f :: "'b \<Rightarrow> 'a::comm_monoid_add"
  shows "sum_list (map f (sort_key k xs)) = sum_list (map f xs)"
  by (metis mset_map mset_sort sum_mset_sum_list)

lemma mset_concat_sort_key:
  "mset (concat (map f (sort_key k xs))) = mset (concat (map f xs))"
  using sum_list_sort_key[of "mset \<circ> f" k xs] by (simp add: mset_concat comp_def)

lemma mset_nodes_ladder: "mset (nodes_of (ladder t)) = mset (nodes_of t)"
proof (induction t)
  case (RNode r ts)
  have eq: "map (\<lambda>u. mset (nodes_of (ladder u))) ts = map (\<lambda>u. mset (nodes_of u)) ts"
    using RNode by (intro map_cong) auto
  have "mset (concat (map nodes_of (map ladder (sort_key tip_count ts)))) =
        mset (concat (map (nodes_of \<circ> ladder) ts))"
    using mset_concat_sort_key[of "nodes_of \<circ> ladder" tip_count ts] by (simp add: comp_def)
  also have "\<dots> = mset (concat (map nodes_of ts))"
    by (simp add: mset_concat comp_def eq)
  finally show ?case by simp
qed

lemma set_nodes_ladder: "set (nodes_of (ladder t)) = set (nodes_of t)"
  using mset_nodes_ladder[of t] by (metis set_mset_mset)

lemma distinct_nodes_ladder: "distinct (nodes_of (ladder t)) = distinct (nodes_of t)"
  by (rule mset_eq_imp_distinct_iff) (rule mset_nodes_ladder)

lemma foldr_max: "foldr max xs (0::nat) = Max (insert 0 (set xs))"
proof (induction xs)
  case Nil
  show ?case by simp
next
  case (Cons a xs)
  have "Max (insert a (insert 0 (set xs))) = max a (Max (insert 0 (set xs)))"
    by (rule Max_insert) auto
  then show ?case using Cons by (simp add: insert_commute)
qed

lemma depth_ladder: "depth_of (ladder t) = depth_of t"
proof (induction t)
  case (RNode r ts)
  have "set (map depth_of (map ladder (sort_key tip_count ts))) = set (map depth_of ts)"
    using RNode by (auto simp: image_iff)
  then show ?case by (simp only: ladder.simps depth_of.simps foldr_max)
qed

lemma tip_count_ladder: "tip_count (ladder t) = tip_count t"
proof (induction t)
  case (RNode r ts)
  have eq: "map (\<lambda>u. tip_count (ladder u)) ts = map tip_count ts"
    using RNode by (intro map_cong) auto
  have "sum_list (map tip_count (map ladder (sort_key tip_count ts))) =
        sum_list (map (tip_count \<circ> ladder) ts)"
    using sum_list_sort_key[of "tip_count \<circ> ladder" tip_count ts] by (simp add: comp_def)
  also have "\<dots> = sum_list (map tip_count ts)" by (simp add: comp_def eq)
  finally show ?case by (cases ts) auto
qed

lemma sort_key_map: "sort_key f (map g xs) = map g (sort_key (f \<circ> g) xs)"
proof -
  have "insort_key f (g x) (map g ys) = map g (insort_key (f \<circ> g) x ys)" for x ys
    by (induction ys) auto
  then show ?thesis by (induction xs) auto
qed

lemma ladder_idem: "ladder (ladder t) = ladder t"
proof (induction t)
  case (RNode r ts)
  let ?s = "sort_key tip_count ts"
  have c: "tip_count \<circ> ladder = tip_count" by (rule ext) (simp add: tip_count_ladder)
  have "sort_key tip_count (map ladder ?s) = map ladder (sort_key tip_count ?s)"
    by (simp add: sort_key_map c)
  also have "sort_key tip_count ?s = ?s"
    by (rule sort_key_id_if_sorted) simp
  finally have "map ladder (sort_key tip_count (map ladder ?s)) = map ladder (map ladder ?s)"
    by simp
  also have "\<dots> = map ladder ?s"
    using RNode by (simp add: map_idI)
  finally show ?case by simp
qed

lemma ladder_forest:
  assumes each: "\<And>u h. u \<in> set us \<Longrightarrow> shape h u \<Longrightarrow>
        \<exists>xs h'. g (rroot u) h = Some (xs, h') \<and> shape h' (ladder u) \<and>
                 children_kept (set (nodes_of u)) h h'"
    and sh: "\<forall>u \<in> set us. shape h u"
    and dist: "distinct (concat (map nodes_of us))"
  shows "\<exists>xs h'. visit_all g (map rroot us) h = Some (xs, h') \<and>
           (\<forall>u \<in> set us. shape h' (ladder u)) \<and>
           children_kept (set (concat (map nodes_of us))) h h'"
  using each sh dist
proof (induction us arbitrary: h)
  case Nil
  show ?case by (simp add: children_kept_def)
next
  case (Cons u us)
  obtain xs h1 where g: "g (rroot u) h = Some (xs, h1)" and s1: "shape h1 (ladder u)"
    and k1: "children_kept (set (nodes_of u)) h h1"
    using Cons.prems(1)[of u h] Cons.prems(2) by auto
  have disj: "set (nodes_of u) \<inter> set (concat (map nodes_of us)) = {}"
    using Cons.prems(3) by auto
  have "shape h1 v" if "v \<in> set us" for v
  proof -
    have "children (cells h1 q) = children (cells h q)" if "q \<in> set (nodes_of v)" for q
      using that \<open>v \<in> set us\<close> disj k1 by (auto simp: children_kept_def)
    then show ?thesis using shape_frame[of v h1 h] Cons.prems(2) \<open>v \<in> set us\<close> by simp
  qed
  then obtain ys h2 where v: "visit_all g (map rroot us) h1 = Some (ys, h2)"
    and s2: "\<forall>v \<in> set us. shape h2 (ladder v)"
    and k2: "children_kept (set (concat (map nodes_of us))) h1 h2"
    using Cons.IH[of h1] Cons.prems(1,3) by auto
  have "children (cells h2 q) = children (cells h1 q)" if "q \<in> set (nodes_of (ladder u))" for q
  proof -
    have "q \<notin> set (concat (map nodes_of us))" using that disj by (auto simp: set_nodes_ladder)
    then show ?thesis using k2 unfolding children_kept_def by blast
  qed
  then have "shape h2 (ladder u)" using shape_frame[of "ladder u" h2 h1] s1 by simp
  moreover have "children_kept (set (concat (map nodes_of (u # us)))) h h2"
    using k1 k2 by (auto simp: children_kept_def)
  ultimately show ?case using g v s2 by simp
qed

lemma ladder_traverse:
  assumes "shape h t" and "distinct (nodes_of t)" and "depth_of t \<le> n" and "depth_of t \<le> m"
  shows "\<exists>xs h'. applyPreOrder n (sort_children m) (rroot t) h = Some (xs, h') \<and>
           shape h' (ladder t) \<and> children_kept (set (nodes_of t)) h h'"
  using assms
proof (induction n arbitrary: t h)
  case 0
  then show ?case by (cases t) simp
next
  case (Suc n)
  obtain r ts where t: "t = RNode r ts" by (cases t)
  let ?ts = "sort_key tip_count ts"
  have dm: "\<forall>u \<in> set ts. depth_of u \<le> m" and dn: "\<forall>u \<in> set ts. depth_of u \<le> n"
    using Suc.prems(3,4) t depth_of_member[of _ ts] by fastforce+
  obtain h1 where sc: "sort_children m r h = Some (Some (), h1)"
    and c1: "children (cells h1 r) = map rroot ?ts"
    and k1: "\<forall>q. q \<noteq> r \<longrightarrow> children (cells h1 q) = children (cells h q)"
    using sort_children_run[of h r ts m] Suc.prems(1) t dm by auto
  have rn: "r \<notin> set (concat (map nodes_of ts))" and dts: "distinct (concat (map nodes_of ts))"
    using Suc.prems(2) t by auto
  have sh1: "\<forall>u \<in> set ?ts. shape h1 u"
  proof
    fix u assume "u \<in> set ?ts"
    then have u: "u \<in> set ts" by simp
    have "children (cells h1 q) = children (cells h q)" if "q \<in> set (nodes_of u)" for q
      using that u rn k1 by auto
    then show "shape h1 u" using shape_frame[of u h1 h] Suc.prems(1) t u by simp
  qed
  have d2: "distinct (concat (map nodes_of ?ts))"
  proof -
    have "mset (concat (map nodes_of ?ts)) = mset (concat (map nodes_of ts))"
      by (rule mset_concat_sort_key)
    then show ?thesis using dts mset_eq_imp_distinct_iff by blast
  qed
  have each: "\<exists>xs h'. applyPreOrder n (sort_children m) (rroot u) h0 = Some (xs, h') \<and>
                shape h' (ladder u) \<and> children_kept (set (nodes_of u)) h0 h'"
    if "u \<in> set ?ts" "shape h0 u" for u h0
  proof -
    have u: "u \<in> set ts" using that(1) by simp
    have "distinct (nodes_of u)" using dts u by (auto simp: distinct_concat_iff)
    then show ?thesis using that(2) dn dm u by (intro Suc.IH) auto
  qed
  obtain ys h2 where v: "visit_all (applyPreOrder n (sort_children m)) (map rroot ?ts) h1 = Some (ys, h2)"
    and s2: "\<forall>u \<in> set ?ts. shape h2 (ladder u)"
    and k2: "children_kept (set (concat (map nodes_of ?ts))) h1 h2"
    using ladder_forest[of ?ts "applyPreOrder n (sort_children m)" h1, OF each sh1 d2] by auto
  have sets: "set (concat (map nodes_of ?ts)) = set (concat (map nodes_of ts))" by auto
  have "children (cells h2 r) = map rroot ?ts"
    using c1 k2 rn sets by (simp add: children_kept_def)
  then have "shape h2 (ladder t)" using s2 t by (simp add: comp_def)
  moreover have "children_kept (set (nodes_of t)) h h2"
    using k1 k2 sets t by (auto simp: children_kept_def)
  ultimately show ?case using sc c1 v t by simp
qed

lemma shape_same_children:
  "shape h1 t \<Longrightarrow> shape h2 t \<Longrightarrow> q \<in> set (nodes_of t) \<Longrightarrow>
   children (cells h1 q) = children (cells h2 q)"
  by (induction t) auto

text \<open>
  C9. On a tree, \<open>ladderise\<close> returns, a second \<open>ladderise\<close> returns too and leaves every
  list of children as the first one left it; after the first, each node's children are
  the stable sort by tip count of what they were (\<open>ladder\<close>).
\<close>

theorem ladderise_idempotent:
  assumes "shape h t" and "distinct (nodes_of t)" and "depth_of t \<le> n" and "root_t tr = rroot t"
  shows "\<exists>h1 h2. ladderise n h tr = Some h1 \<and> ladderise n h1 tr = Some h2 \<and>
           shape h1 (ladder t) \<and> (\<forall>q. children (cells h2 q) = children (cells h1 q))"
proof -
  obtain xs h1 where a: "applyPreOrder n (sort_children n) (rroot t) h = Some (xs, h1)"
    and s1: "shape h1 (ladder t)" and k1: "children_kept (set (nodes_of t)) h h1"
    using ladder_traverse[OF assms(1,2,3,3)] by blast
  obtain ys h2 where b: "applyPreOrder n (sort_children n) (rroot (ladder t)) h1 = Some (ys, h2)"
    and s2: "shape h2 (ladder (ladder t))"
    and k2: "children_kept (set (nodes_of (ladder t))) h1 h2"
    using ladder_traverse[of h1 "ladder t" n n] s1 assms(2,3)
    by (auto simp: distinct_nodes_ladder depth_ladder)
  have "children (cells h2 q) = children (cells h1 q)" for q
  proof (cases "q \<in> set (nodes_of (ladder t))")
    case True
    then show ?thesis using shape_same_children[of h2 "ladder t" h1 q] s1 s2
      by (simp add: ladder_idem)
  next
    case False
    then show ?thesis using k2 by (simp add: children_kept_def)
  qed
  then show ?thesis using a b s1 assms(4) by (simp add: ladderise_def)
qed

theorem ladderise_idempotent_witness:
  "shape (parsed_store 12 ''((A:1,B:1):1,C:1);'') (RNode 0 [RNode 1 [RNode 2 [], RNode 3 []], RNode 4 []]) \<and>
   (\<exists>h1 h2. ladderise 3 (parsed_store 12 ''((A:1,B:1):1,C:1);'') (fresh_tree 0) = Some h1 \<and>
      ladderise 3 h1 (fresh_tree 0) = Some h2 \<and>
      children (cells h1 0) = [4, 1] \<and> children (cells h2 0) = [4, 1])"
proof -
  let ?h = "parsed_store 12 ''((A:1,B:1):1,C:1);''"
  let ?t = "RNode 0 [RNode 1 [RNode 2 [], RNode 3 []], RNode 4 []]"
  have a: "shape ?h ?t" using example_is_tree by (simp add: is_tree_def)
  have b: "distinct (nodes_of ?t)" by simp
  have c: "depth_of ?t \<le> 3" by simp
  have d: "root_t (fresh_tree 0) = rroot ?t" by (simp add: fresh_tree_def)
  have l: "ladder ?t = RNode 0 [RNode 4 [], RNode 1 [RNode 2 [], RNode 3 []]]" by simp
  from ladderise_idempotent[OF a b c d] obtain h1 h2 where
    1: "ladderise 3 ?h (fresh_tree 0) = Some h1" and 2: "ladderise 3 h1 (fresh_tree 0) = Some h2"
    and 3: "shape h1 (ladder ?t)" and 4: "\<forall>q. children (cells h2 q) = children (cells h1 q)"
    by blast
  from 3 have "children (cells h1 0) = [4, 1]" unfolding l by simp
  with 1 2 4 a show ?thesis by auto
qed

subsection \<open>getMRCA on the leaves of a tree\<close>






















end
